theory Spec2Isabelle
  imports Complex_Main "HOL-Library.Word"
begin

section \<open>The anagram dictionary of Dictionary.cpp\<close>

text \<open>
  The development embeds \<^verbatim>\<open>DictionaryImpl\<close> of \<^verbatim>\<open>Dictionary.cpp\<close>: a hash table of
  \<^verbatim>\<open>m_B\<close> bucket chains that doubles, up to \<^verbatim>\<open>m_maxB\<close> buckets, while its load factor is
  above 0.7.  Words are filed under the hash of their sorted letters.

  What the C++ standard library supplies is fixed as follows.
  \<^item> \<^verbatim>\<open>isalpha\<close> and \<^verbatim>\<open>tolower\<close> are those of the "C" locale: the letters are the 52
    ASCII letters.
  \<^item> \<^verbatim>\<open>std::sort\<close> on a string orders its characters by code.  Every string the program
    sorts has been through \<^verbatim>\<open>removeNonLetters\<close> and holds lowercase ASCII letters only, so
    the signedness of \<^verbatim>\<open>char\<close> plays no part.
  \<^item> \<^verbatim>\<open>std::hash<string>\<close> is implementation-defined: it is the parameter \<open>h\<close> of every
    function that hashes, and every theorem holds for each choice of it.
  \<^item> \<^verbatim>\<open>unsigned int\<close> is 32 bits wide and \<^verbatim>\<open>float\<close> is IEEE 754 binary32, evaluated in
    single precision with rounding to nearest, ties to even.
  \<^item> Memory is unbounded: \<^verbatim>\<open>new\<close> does not fail.
  Undefined behaviour of the source is a value of type \<open>error\<close>.
\<close>

subsection \<open>Characters and strings\<close>

definition isalpha :: "char \<Rightarrow> bool" where
  "isalpha c = (let n = (of_char c :: nat) in (65 \<le> n \<and> n \<le> 90) \<or> (97 \<le> n \<and> n \<le> 122))"

definition tolower :: "char \<Rightarrow> char" where
  "tolower c = (let n = (of_char c :: nat) in if 65 \<le> n \<and> n \<le> 90 then char_of (n + 32) else c)"

text \<open>
  \<^verbatim>\<open>removeNonLetters\<close> copies the letters of \<open>s\<close>, lowercased, to the front of \<open>s\<close> and
  erases the rest.
\<close>

fun removeNonLetters :: "string \<Rightarrow> string" where
  "removeNonLetters [] = []"
| "removeNonLetters (c # s) =
     (if isalpha c then tolower c # removeNonLetters s else removeNonLetters s)"

text \<open>\<^verbatim>\<open>std::sort(s.begin(), s.end())\<close>.\<close>

definition std_sort :: "string \<Rightarrow> string" where
  "std_sort s = sort_key (of_char :: char \<Rightarrow> nat) s"

text \<open>
  The canonical key of a word: its letters, lowercased and sorted.  The source computes it
  in two steps, \<^verbatim>\<open>removeNonLetters\<close> and then \<^verbatim>\<open>std::sort\<close>, wherever it needs it.
\<close>

definition canonical_key :: "string \<Rightarrow> string" where
  "canonical_key w = std_sort (removeNonLetters w)"

subsection \<open>Single-precision arithmetic\<close>

text \<open>
  A finite positive \<^verbatim>\<open>float\<close> is a rational with a 24 bit significand.  Every operation
  returns the exact result rounded to the nearest such rational, ties to the even
  significand.  The values of the program lie between \<open>2\<^sup>-\<^sup>3\<^sup>2\<close> and \<open>2\<^sup>3\<^sup>2\<close>, far from
  overflow and underflow.
\<close>

fun bit_length :: "nat \<Rightarrow> nat" where
  "bit_length n = (if n = 0 then 0 else Suc (bit_length (n div 2)))"

declare bit_length.simps [simp del]

text \<open>For \<open>0 < x\<close>, the exponent \<open>e\<close> with \<open>2\<^sup>e \<le> x < 2\<^sup>e\<^sup>+\<^sup>1\<close>.\<close>

definition ilog2 :: "rat \<Rightarrow> int" where
  "ilog2 x = (let (p, q) = quotient_of x;
                  d = int (bit_length (nat p)) - int (bit_length (nat q))
              in if x < 2 powi d then d - 1 else d)"

definition round_half_even :: "rat \<Rightarrow> int" where
  "round_half_even y = (let f = \<lfloor>y\<rfloor>; d = y - of_int f
     in if 1 / 2 < d \<or> (d = 1 / 2 \<and> odd f) then f + 1 else f)"

definition f32_round :: "rat \<Rightarrow> rat" where
  "f32_round x = (if x = 0 then 0 else
     let ulp = 2 powi (ilog2 x - 23) in of_int (round_half_even (x / ulp)) * ulp)"

text \<open>
  \<^verbatim>\<open>m_N / static_cast<float>(m_B) > 0.7f\<close>: both operands are converted to \<^verbatim>\<open>float\<close>, the
  quotient is rounded, and \<^verbatim>\<open>0.7f\<close> is the \<^verbatim>\<open>float\<close> nearest to 7/10.  A division by
  \<^verbatim>\<open>0.0f\<close> gives infinity, above 0.7, or for 0/0 a NaN, which compares false.
\<close>

definition load_factor_exceeded :: "32 word \<Rightarrow> 32 word \<Rightarrow> bool" where
  "load_factor_exceeded N B =
     (let n = f32_round (of_nat (unat N)); b = f32_round (of_nat (unat B))
      in if b = 0 then 0 < n else f32_round (7 / 10) < f32_round (n / b))"

subsection \<open>The table\<close>

text \<open>
  \<^verbatim>\<open>m_words\<close> points to an array of \<^verbatim>\<open>m_B\<close> pointers, each null or the address of a list
  of strings: slot \<open>i\<close> of the array is \<open>m_words s i\<close>, and \<open>None\<close> is the null pointer.
  The program reads and writes slots below \<^verbatim>\<open>m_B\<close> only.
\<close>

datatype error = DivisionByZero | SignedOverflow

record DictionaryImpl_state =
  m_maxB :: "32 word"
  m_B :: "32 word"
  m_N :: "32 word"
  m_words :: "nat \<Rightarrow> string list option"

text \<open>
  The constructor.  Its \<^verbatim>\<open>int\<close> argument is converted to \<^verbatim>\<open>unsigned int\<close>, which
  for a negative argument adds \<open>2\<^sup>3\<^sup>2\<close>.
\<close>

definition DictionaryImpl :: "int \<Rightarrow> DictionaryImpl_state" where
  "DictionaryImpl max_buckets =
     (let maxB = (word_of_int max_buckets :: 32 word)
      in \<lparr>m_maxB = maxB, m_B = (if 10 < maxB then 10 else maxB), m_N = 0,
          m_words = (\<lambda>i. None)\<rparr>)"

text \<open>
  \<^verbatim>\<open>hash\<close>: the remainder of the hash by \<^verbatim>\<open>m_B\<close>.  A remainder by zero is undefined
  behaviour.
\<close>

definition hash :: "(string \<Rightarrow> nat) \<Rightarrow> DictionaryImpl_state \<Rightarrow> string \<Rightarrow> error + nat" where
  "hash h s sortedkey =
     (if m_B s = 0 then Inl DivisionByZero else Inr (h sortedkey mod unat (m_B s)))"

text \<open>
  \<^verbatim>\<open>if (!arr[bucket]) arr[bucket] = new list<string>; arr[bucket]->push_back(w)\<close>.
\<close>

definition push_back :: "(nat \<Rightarrow> string list option) \<Rightarrow> nat \<Rightarrow> string \<Rightarrow> nat \<Rightarrow> string list option" where
  "push_back arr bucket w =
     arr(bucket := Some ((case arr bucket of None \<Rightarrow> [] | Some l \<Rightarrow> l) @ [w]))"

text \<open>
  The two loops of \<^verbatim>\<open>tryRehash\<close> that move the old table into the new array: the inner
  one over a chain, the outer one over the old bucket indices.  \<open>s\<close> already holds the new
  \<^verbatim>\<open>m_B\<close>, which \<^verbatim>\<open>hash\<close> reads.
\<close>

fun transfer_chain ::
  "(string \<Rightarrow> nat) \<Rightarrow> DictionaryImpl_state \<Rightarrow> string list \<Rightarrow> (nat \<Rightarrow> string list option)
    \<Rightarrow> error + (nat \<Rightarrow> string list option)" where
  "transfer_chain h s [] newArr = Inr newArr"
| "transfer_chain h s (w # ws) newArr =
     (case hash h s (std_sort w) of
        Inl e \<Rightarrow> Inl e
      | Inr bucket \<Rightarrow> transfer_chain h s ws (push_back newArr bucket w))"

fun transfer_buckets ::
  "(string \<Rightarrow> nat) \<Rightarrow> DictionaryImpl_state \<Rightarrow> (nat \<Rightarrow> string list option) \<Rightarrow> nat list
    \<Rightarrow> (nat \<Rightarrow> string list option) \<Rightarrow> error + (nat \<Rightarrow> string list option)" where
  "transfer_buckets h s old [] newArr = Inr newArr"
| "transfer_buckets h s old (i # is) newArr =
     (case old i of
        None \<Rightarrow> transfer_buckets h s old is newArr
      | Some l \<Rightarrow>
          (case transfer_chain h s l newArr of
             Inl e \<Rightarrow> Inl e
           | Inr newArr' \<Rightarrow> transfer_buckets h s old is newArr'))"

text \<open>
  \<^verbatim>\<open>tryRehash\<close>.  The loops count with an \<^verbatim>\<open>int\<close> up to an \<^verbatim>\<open>unsigned int\<close> bound:
  with a bound of \<open>2\<^sup>3\<^sup>1\<close> or more the counter overflows.  A call with two undefined
  steps fails with one of them, not always the one the program reaches first.
\<close>

definition tryRehash :: "(string \<Rightarrow> nat) \<Rightarrow> DictionaryImpl_state \<Rightarrow> error + DictionaryImpl_state" where
  "tryRehash h s =
     (if m_B s < m_maxB s \<and> load_factor_exceeded (m_N s) (m_B s) then
        let oldSize = m_B s;
            s1 = s\<lparr>m_B := (if 2 * m_B s < m_maxB s then 2 * m_B s else m_maxB s)\<rparr>
        in if 2 ^ 31 \<le> unat (m_B s1) \<or> 2 ^ 31 \<le> unat oldSize then Inl SignedOverflow
           else
             (case transfer_buckets h s1 (m_words s) [0..<unat oldSize] (\<lambda>i. None) of
                Inl e \<Rightarrow> Inl e
              | Inr newArr \<Rightarrow> Inr (s1\<lparr>m_words := newArr\<rparr>))
      else Inr s)"

text \<open>\<^verbatim>\<open>DictionaryImpl::insert\<close>.\<close>

definition insertImpl :: "(string \<Rightarrow> nat) \<Rightarrow> string \<Rightarrow> DictionaryImpl_state \<Rightarrow> error + DictionaryImpl_state" where
  "insertImpl h word s =
     (case tryRehash h (s\<lparr>m_N := m_N s + 1\<rparr>) of
        Inl e \<Rightarrow> Inl e
      | Inr s1 \<Rightarrow>
          let word' = removeNonLetters word
          in if word' \<noteq> [] then
               (case hash h s1 (std_sort word') of
                  Inl e \<Rightarrow> Inl e
                | Inr bucket \<Rightarrow> Inr (s1\<lparr>m_words := push_back (m_words s1) bucket word'\<rparr>))
             else Inr s1)"

text \<open>
  \<^verbatim>\<open>DictionaryImpl::lookup\<close>.  The callback is a function pointer, null or not; what it
  does is a change of the caller's own state \<open>'u\<close>, which the table is no part of.  The
  loop over the chain applies it to each word whose sorted letters are the sorted query.
  The result holds the table as the call leaves it.
\<close>

fun lookup_loop :: "string \<Rightarrow> (string \<Rightarrow> 'u \<Rightarrow> 'u) \<Rightarrow> string list \<Rightarrow> 'u \<Rightarrow> 'u" where
  "lookup_loop letters callback [] u = u"
| "lookup_loop letters callback (w # ws) u =
     lookup_loop letters callback ws (if std_sort w = letters then callback w u else u)"

definition lookupImpl ::
  "(string \<Rightarrow> nat) \<Rightarrow> DictionaryImpl_state \<Rightarrow> string \<Rightarrow> (string \<Rightarrow> 'u \<Rightarrow> 'u) option \<Rightarrow> 'u
    \<Rightarrow> error + (DictionaryImpl_state \<times> 'u)" where
  "lookupImpl h s letters callback u =
     (case callback of
        None \<Rightarrow> Inr (s, u)
      | Some cb \<Rightarrow>
          let letters1 = removeNonLetters letters
          in if letters1 = [] then Inr (s, u)
             else
               let letters2 = std_sort letters1
               in (case hash h s letters2 of
                     Inl e \<Rightarrow> Inl e
                   | Inr bucket \<Rightarrow>
                       (case m_words s bucket of
                          None \<Rightarrow> Inr (s, u)
                        | Some l \<Rightarrow> Inr (s, lookup_loop letters2 cb l u))))"

text \<open>The class \<^verbatim>\<open>Dictionary\<close> hands every call to its \<^verbatim>\<open>DictionaryImpl\<close>.\<close>

definition Dictionary :: "int \<Rightarrow> DictionaryImpl_state" where
  "Dictionary maxBuckets = DictionaryImpl maxBuckets"

definition Dictionary_insert :: "(string \<Rightarrow> nat) \<Rightarrow> string \<Rightarrow> DictionaryImpl_state \<Rightarrow> error + DictionaryImpl_state" where
  "Dictionary_insert h word m_impl = insertImpl h word m_impl"

definition Dictionary_lookup ::
  "(string \<Rightarrow> nat) \<Rightarrow> DictionaryImpl_state \<Rightarrow> string \<Rightarrow> (string \<Rightarrow> 'u \<Rightarrow> 'u) option \<Rightarrow> 'u
    \<Rightarrow> error + (DictionaryImpl_state \<times> 'u)" where
  "Dictionary_lookup h m_impl letters callback u = lookupImpl h m_impl letters callback u"

subsection \<open>Runs of the table\<close>

text \<open>A sequence of calls of \<^verbatim>\<open>insert\<close>, first word first.\<close>

fun inserts :: "(string \<Rightarrow> nat) \<Rightarrow> string list \<Rightarrow> DictionaryImpl_state \<Rightarrow> error + DictionaryImpl_state" where
  "inserts h [] s = Inr s"
| "inserts h (w # ws) s =
     (case insertImpl h w s of Inl e \<Rightarrow> Inl e | Inr s' \<Rightarrow> inserts h ws s')"

text \<open>
  A callback that appends its argument to a log: the log of a lookup is the sequence of
  the words the callback was called with.
\<close>

definition record_visit :: "string \<Rightarrow> string list \<Rightarrow> string list" where
  "record_visit w seen = seen @ [w]"

text \<open>The chain a slot of the array points to, empty for a null pointer.\<close>

definition slot :: "(nat \<Rightarrow> string list option) \<Rightarrow> nat \<Rightarrow> string list" where
  "slot arr i = (case arr i of None \<Rightarrow> [] | Some l \<Rightarrow> l)"

definition chain :: "DictionaryImpl_state \<Rightarrow> nat \<Rightarrow> string list" where
  "chain s i = slot (m_words s) i"

text \<open>The words of a list whose sorted letters are \<open>letters\<close>, in the order of the list.\<close>

definition matching :: "string \<Rightarrow> string list \<Rightarrow> string list" where
  "matching letters ws = filter (\<lambda>w. std_sort w = letters) ws"

text \<open>
  The invariant of the table after the calls \<open>insert(w)\<close> for the words \<open>w\<close> of \<open>ws\<close>:
  the bucket count is positive and at most \<^verbatim>\<open>m_maxB\<close>, which fits a positive \<^verbatim>\<open>int\<close>,
  and the words of a chain with a given key are the stored forms of the inserted words with
  that key, in insertion order, all in the bucket the key hashes to.
\<close>

definition table_inv :: "(string \<Rightarrow> nat) \<Rightarrow> string list \<Rightarrow> DictionaryImpl_state \<Rightarrow> bool" where
  "table_inv h ws s \<longleftrightarrow>
     m_B s \<noteq> 0 \<and> m_B s \<le> m_maxB s \<and> unat (m_maxB s) < 2 ^ 31 \<and>
     (\<forall>i k. matching k (chain s i) =
        (if k \<noteq> [] \<and> i = h k mod unat (m_B s)
         then matching k (map removeNonLetters ws) else []))"

text \<open>
  The words the callback is called with by \<^verbatim>\<open>lookup(letters, callback)\<close>, in the order of
  the calls.
\<close>

definition visited :: "(string \<Rightarrow> nat) \<Rightarrow> DictionaryImpl_state \<Rightarrow> string \<Rightarrow> error + string list" where
  "visited h s letters =
     (case lookupImpl h s letters (Some record_visit) [] of
        Inl e \<Rightarrow> Inl e
      | Inr (s', tr) \<Rightarrow> Inr tr)"

text \<open>
  A whole run: a table of \<open>mb\<close> buckets at most is made, the words of \<open>ws\<close> are
  inserted, first word first, and \<open>q\<close> is looked up.
\<close>

definition lookup_after :: "(string \<Rightarrow> nat) \<Rightarrow> int \<Rightarrow> string list \<Rightarrow> string \<Rightarrow> error + string list" where
  "lookup_after h mb ws q =
     (case inserts h ws (Dictionary mb) of
        Inl e \<Rightarrow> Inl e
      | Inr s \<Rightarrow> visited h s q)"

text \<open>
  A hash function to run the program on concrete words: the sum of the character codes.
  The words visited in the runs below are the same for every other choice.
\<close>

definition sample_hash :: "string \<Rightarrow> nat" where
  "sample_hash k = sum_list (map of_char k)"

section \<open>Lemmas\<close>

subsection \<open>The loops\<close>

lemma removeNonLetters_eq: "removeNonLetters s = map tolower (filter isalpha s)"
  by (induction s) auto

lemma lookup_loop_fold: "lookup_loop k cb l u = fold cb (matching k l) u"
  by (induction l arbitrary: u) (auto simp: matching_def)

lemma slot_push_back:
  "slot (push_back arr b w) i = (if i = b then slot arr b @ [w] else slot arr i)"
  by (auto simp: slot_def push_back_def split: option.splits)

lemma slot_empty [simp]: "slot (\<lambda>i. None) i = []"
  by (simp add: slot_def)

lemma hash_ok: "m_B s \<noteq> 0 \<Longrightarrow> hash h s k = Inr (h k mod unat (m_B s))"
  by (simp add: hash_def)

lemma transfer_chain_ok:
  assumes "m_B s \<noteq> 0"
  shows "\<exists>arr'. transfer_chain h s ws arr = Inr arr' \<and>
     (\<forall>i. slot arr' i = slot arr i @ filter (\<lambda>w. h (std_sort w) mod unat (m_B s) = i) ws)"
  using assms
proof (induction ws arbitrary: arr)
  case Nil
  then show ?case by simp
next
  case (Cons w ws)
  from Cons.IH [OF Cons.prems, of "push_back arr (h (std_sort w) mod unat (m_B s)) w"]
  obtain arr' where a: "transfer_chain h s ws (push_back arr (h (std_sort w) mod unat (m_B s)) w) = Inr arr'"
    and b: "\<forall>i. slot arr' i = slot (push_back arr (h (std_sort w) mod unat (m_B s)) w) i @ filter (\<lambda>w. h (std_sort w) mod unat (m_B s) = i) ws"
    by blast
  show ?case
    using a b Cons.prems by (auto simp: hash_ok slot_push_back)
qed

lemma transfer_buckets_ok:
  assumes "m_B s \<noteq> 0"
  shows "\<exists>arr'. transfer_buckets h s old js arr = Inr arr' \<and>
     (\<forall>i. slot arr' i = slot arr i @ filter (\<lambda>w. h (std_sort w) mod unat (m_B s) = i) (concat (map (slot old) js)))"
proof (induction js arbitrary: arr)
  case Nil
  then show ?case by simp
next
  case (Cons j js)
  show ?case
  proof (cases "old j")
    case None
    then have "slot old j = []" by (simp add: slot_def)
    with None Cons.IH [of arr] show ?thesis by simp
  next
    case (Some l)
    then have l: "slot old j = l" by (simp add: slot_def)
    from transfer_chain_ok [OF assms, of h l arr] obtain a1 where
      a1: "transfer_chain h s l arr = Inr a1"
      and s1: "\<forall>i. slot a1 i = slot arr i @ filter (\<lambda>w. h (std_sort w) mod unat (m_B s) = i) l"
      by blast
    from Cons.IH [of a1] obtain a2 where
      a2: "transfer_buckets h s old js a1 = Inr a2"
      and s2: "\<forall>i. slot a2 i = slot a1 i @ filter (\<lambda>w. h (std_sort w) mod unat (m_B s) = i) (concat (map (slot old) js))"
      by blast
    show ?thesis using Some l a1 s1 a2 s2 by simp
  qed
qed

lemma concat_single:
  "a < n \<Longrightarrow> concat (map (\<lambda>j. if j = a then F else []) [0..<n]) = F"
proof (induction n)
  case 0
  then show ?case by simp
next
  case (Suc n)
  show ?case
  proof (cases "a < n")
    case True
    with Suc.IH show ?thesis by simp
  next
    case False
    with Suc.prems have "a = n" by simp
    moreover have "concat (map (\<lambda>j. if j = n then F else []) [0..<n]) = []"
      by (induction n) auto
    ultimately show ?thesis by simp
  qed
qed

lemma std_sort_Nil [simp]: "std_sort w = [] \<longleftrightarrow> w = []"
  using length_sort [of "of_char :: char \<Rightarrow> nat" w] by (auto simp: std_sort_def simp del: length_sort)

lemma matching_append: "matching k (xs @ ys) = matching k xs @ matching k ys"
  by (simp add: matching_def)

lemma matching_Nil [simp]: "matching k [] = []"
  by (simp add: matching_def)

lemma matching_concat: "matching k (concat xss) = concat (map (matching k) xss)"
  by (induction xss) (auto simp: matching_append)

lemma matching_filter_hash:
  "matching k (filter (\<lambda>w. h (std_sort w) mod n = i) xs) =
     (if h k mod n = i then matching k xs else [])"
  by (induction xs) (auto simp: matching_def)

subsection \<open>The invariant\<close>

text \<open>
  \<open>table_inv\<close> holds of the fresh table, and \<^verbatim>\<open>tryRehash\<close> and \<^verbatim>\<open>insert\<close> keep it and
  return.
\<close>

lemma tryRehash_unchanged:
  "\<not> (m_B s < m_maxB s \<and> load_factor_exceeded (m_N s) (m_B s)) \<Longrightarrow> tryRehash h s = Inr s"
  by (auto simp: tryRehash_def)

lemma grow_bounds:
  fixes B maxB :: "32 word"
  assumes "B < maxB" "unat maxB < 2 ^ 31" "B \<noteq> 0"
  defines "B' \<equiv> (if 2 * B < maxB then 2 * B else maxB)"
  shows "B < B'" "B' \<le> maxB" "B' \<noteq> 0" "unat B' < 2 ^ 31" "unat B' = min (2 * unat B) (unat maxB)"
proof -
  have lt: "unat B < unat maxB" using assms(1) by (simp add: word_less_nat_alt)
  have two: "unat (2 * B) = 2 * unat B"
    using lt assms(2) by (simp add: unat_word_ariths)
  have pos: "0 < unat B" using assms(3) by (simp add: unat_gt_0)
  show "B < B'" using lt two pos by (auto simp: B'_def word_less_nat_alt)
  show "B' \<le> maxB" by (auto simp: B'_def word_le_nat_alt word_less_nat_alt)
  show "B' \<noteq> 0" using \<open>B < B'\<close> by auto
  show "unat B' < 2 ^ 31" using assms(2) two lt by (auto simp: B'_def word_less_nat_alt)
  show "unat B' = min (2 * unat B) (unat maxB)" using two by (auto simp: B'_def word_less_nat_alt)
qed

lemma matching_all_chains:
  assumes "table_inv h ws s"
  shows "matching k (concat (map (chain s) [0..<unat (m_B s)])) =
     (if k \<noteq> [] then matching k (map removeNonLetters ws) else [])"
proof -
  have pos: "0 < unat (m_B s)"
    using assms by (simp add: table_inv_def unat_gt_0)
  have "matching k (concat (map (chain s) [0..<unat (m_B s)])) =
      concat (map (\<lambda>j. matching k (chain s j)) [0..<unat (m_B s)])"
    by (simp add: matching_concat comp_def)
  also have "\<dots> = concat (map (\<lambda>j. if j = h k mod unat (m_B s)
      then (if k \<noteq> [] then matching k (map removeNonLetters ws) else []) else []) [0..<unat (m_B s)])"
    using assms by (auto simp: table_inv_def intro!: arg_cong [where f = concat])
  also have "\<dots> = (if k \<noteq> [] then matching k (map removeNonLetters ws) else [])"
    using pos by (intro concat_single) simp
  finally show ?thesis .
qed

lemma tryRehash_grow:
  assumes inv: "table_inv h ws s" and g: "m_B s < m_maxB s" "load_factor_exceeded (m_N s) (m_B s)"
  shows "\<exists>newArr. tryRehash h s =
      Inr (s\<lparr>m_B := (if 2 * m_B s < m_maxB s then 2 * m_B s else m_maxB s), m_words := newArr\<rparr>) \<and>
      (\<forall>i. slot newArr i = filter (\<lambda>w. h (std_sort w) mod
          unat (if 2 * m_B s < m_maxB s then 2 * m_B s else m_maxB s) = i)
          (concat (map (chain s) [0..<unat (m_B s)])))"
proof -
  let ?B' = "if 2 * m_B s < m_maxB s then 2 * m_B s else m_maxB s"
  let ?s1 = "s\<lparr>m_B := ?B'\<rparr>"
  from inv have nz: "m_B s \<noteq> 0" and mx: "unat (m_maxB s) < 2 ^ 31"
    by (simp_all add: table_inv_def)
  note gb = grow_bounds [OF g(1) mx nz]
  have old: "unat (m_B s) < 2 ^ 31"
    using g(1) mx by (simp add: word_less_nat_alt)
  have nz1: "m_B ?s1 \<noteq> 0" using gb(3) by simp
  from transfer_buckets_ok [OF nz1, of h "m_words s" "[0..<unat (m_B s)]" "\<lambda>i. None"]
  obtain newArr where t: "transfer_buckets h ?s1 (m_words s) [0..<unat (m_B s)] (\<lambda>i. None) = Inr newArr"
    and sl: "\<forall>i. slot newArr i = slot (\<lambda>i. None) i @
        filter (\<lambda>w. h (std_sort w) mod unat (m_B ?s1) = i) (concat (map (slot (m_words s)) [0..<unat (m_B s)]))"
    by blast
  have ch: "slot (m_words s) = chain s" by (simp add: chain_def fun_eq_iff)
  have "tryRehash h s = Inr (?s1\<lparr>m_words := newArr\<rparr>)"
    using g gb(4) old t by (simp add: tryRehash_def Let_def not_le)
  moreover have "\<forall>i. slot newArr i = filter (\<lambda>w. h (std_sort w) mod unat ?B' = i)
          (concat (map (chain s) [0..<unat (m_B s)]))"
    using sl by (simp add: ch)
  ultimately show ?thesis by auto
qed

lemma tryRehash_inv:
  assumes inv: "table_inv h ws s"
  shows "\<exists>s'. tryRehash h s = Inr s' \<and> table_inv h ws s' \<and> m_N s' = m_N s \<and>
     m_maxB s' = m_maxB s \<and> m_B s \<le> m_B s'"
proof (cases "m_B s < m_maxB s \<and> load_factor_exceeded (m_N s) (m_B s)")
  case False
  then show ?thesis using inv by (simp add: tryRehash_unchanged)
next
  case True
  let ?B' = "if 2 * m_B s < m_maxB s then 2 * m_B s else m_maxB s"
  from inv have nz: "m_B s \<noteq> 0" and mx: "unat (m_maxB s) < 2 ^ 31"
    by (simp_all add: table_inv_def)
  from True have g: "m_B s < m_maxB s" "load_factor_exceeded (m_N s) (m_B s)" by simp_all
  note gb = grow_bounds [OF g(1) mx nz]
  from tryRehash_grow [OF inv g] obtain newArr where
    r: "tryRehash h s = Inr (s\<lparr>m_B := ?B', m_words := newArr\<rparr>)"
    and sl: "\<forall>i. slot newArr i = filter (\<lambda>w. h (std_sort w) mod unat ?B' = i)
          (concat (map (chain s) [0..<unat (m_B s)]))"
    by blast
  let ?s' = "s\<lparr>m_B := ?B', m_words := newArr\<rparr>"
  have m: "matching k (chain ?s' i) =
      (if k \<noteq> [] \<and> i = h k mod unat (m_B ?s')
       then matching k (map removeNonLetters ws) else [])" for i k
    using sl matching_all_chains [OF inv, of k]
    by (auto simp: chain_def matching_filter_hash)
  have "table_inv h ws ?s'"
    unfolding table_inv_def using gb(2,3) mx m by simp
  moreover have "m_B s \<le> m_B ?s'" using gb(1) by simp
  ultimately show ?thesis using r by simp
qed


lemma chain_push_back:
  "chain (s\<lparr>m_words := push_back (m_words s) b w\<rparr>) i =
     (if i = b then chain s b @ [w] else chain s i)"
  by (simp add: chain_def slot_push_back)

lemma insertImpl_inv:
  assumes inv: "table_inv h ws s"
  shows "\<exists>s'. insertImpl h w s = Inr s' \<and> table_inv h (ws @ [w]) s' \<and> m_N s' = m_N s + 1 \<and>
     m_maxB s' = m_maxB s \<and> m_B s \<le> m_B s'"
proof -
  let ?s0 = "s\<lparr>m_N := m_N s + 1\<rparr>"
  have inv0: "table_inv h ws ?s0"
    using inv by (simp add: table_inv_def chain_def)
  from tryRehash_inv [OF inv0] obtain s1 where
    r: "tryRehash h ?s0 = Inr s1" and inv1: "table_inv h ws s1"
    and n1: "m_N s1 = m_N s + 1" and mx1: "m_maxB s1 = m_maxB s" and b1: "m_B s \<le> m_B s1"
    by auto
  from inv1 have nz1: "m_B s1 \<noteq> 0" by (simp add: table_inv_def)
  show ?thesis
  proof (cases "removeNonLetters w = []")
    case True
    have "matching k (map removeNonLetters (ws @ [w])) = matching k (map removeNonLetters ws)"
      if "k \<noteq> []" for k
      using True that by (auto simp: matching_def)
    then have "table_inv h (ws @ [w]) s1"
      using inv1 unfolding table_inv_def by auto
    then show ?thesis
      using r True n1 mx1 b1 by (simp add: insertImpl_def)
  next
    case False
    let ?w = "removeNonLetters w"
    let ?b = "h (std_sort ?w) mod unat (m_B s1)"
    let ?s2 = "s1\<lparr>m_words := push_back (m_words s1) ?b ?w\<rparr>"
    have ins: "insertImpl h w s = Inr ?s2"
      using r False nz1 by (simp add: insertImpl_def hash_ok Let_def)
    have key: "std_sort ?w \<noteq> []" using False by simp
    have m: "matching k (chain ?s2 i) =
        (if k \<noteq> [] \<and> i = h k mod unat (m_B ?s2)
         then matching k (map removeNonLetters (ws @ [w])) else [])" for i k
    proof -
      have old: "matching k' (chain s1 j) =
        (if k' \<noteq> [] \<and> j = h k' mod unat (m_B s1)
         then matching k' (map removeNonLetters ws) else [])" for j k'
        using inv1 by (simp add: table_inv_def)
      have new: "matching k' [?w] = (if std_sort ?w = k' then [?w] else [])" for k'
        by (simp add: matching_def)
      show ?thesis
        using key by (auto simp: chain_push_back matching_append old new)
    qed
    have "table_inv h (ws @ [w]) ?s2"
      unfolding table_inv_def using inv1 m by (simp add: table_inv_def)
    then show ?thesis
      using ins n1 mx1 b1 by simp
  qed
qed

lemma inserts_append:
  "inserts h (ws @ vs) s = (case inserts h ws s of Inl e \<Rightarrow> Inl e | Inr s' \<Rightarrow> inserts h vs s')"
  by (induction ws arbitrary: s) (auto split: sum.splits)

lemma DictionaryImpl_fields:
  assumes "1 \<le> mb" "mb < 2 ^ 31"
  shows "unat (m_maxB (DictionaryImpl mb)) = nat mb"
    and "m_B (DictionaryImpl mb) \<noteq> 0"
    and "m_B (DictionaryImpl mb) \<le> m_maxB (DictionaryImpl mb)"
    and "unat (m_B (DictionaryImpl mb)) = min 10 (nat mb)"
proof -
  have u: "unat (word_of_int mb :: 32 word) = nat mb"
    using assms by (simp add: unat_eq_nat_uint uint_word_of_int take_bit_int_eq_self)
  show "unat (m_maxB (DictionaryImpl mb)) = nat mb"
    using u by (simp add: DictionaryImpl_def Let_def)
  have nz: "(word_of_int mb :: 32 word) \<noteq> 0"
    using u assms by (auto simp: unat_eq_0 [symmetric] simp del: unat_eq_0)
  show "m_B (DictionaryImpl mb) \<noteq> 0"
    using nz by (simp add: DictionaryImpl_def Let_def)
  show "m_B (DictionaryImpl mb) \<le> m_maxB (DictionaryImpl mb)"
    by (simp add: DictionaryImpl_def Let_def word_le_nat_alt word_less_nat_alt)
  show "unat (m_B (DictionaryImpl mb)) = min 10 (nat mb)"
    using u by (auto simp: DictionaryImpl_def Let_def word_less_nat_alt)
qed

lemma DictionaryImpl_inv:
  assumes "1 \<le> mb" "mb < 2 ^ 31"
  shows "table_inv h [] (DictionaryImpl mb)"
proof -
  have "chain (DictionaryImpl mb) i = []" for i
    by (simp add: chain_def DictionaryImpl_def Let_def)
  moreover have "unat (m_maxB (DictionaryImpl mb)) < 2 ^ 31"
    using DictionaryImpl_fields(1) [OF assms] assms by simp
  ultimately show ?thesis
    using DictionaryImpl_fields(2,3) [OF assms] by (simp add: table_inv_def)
qed

lemma inserts_inv:
  assumes "table_inv h vs s"
  shows "\<exists>s'. inserts h ws s = Inr s' \<and> table_inv h (vs @ ws) s' \<and>
    m_maxB s' = m_maxB s \<and> m_B s \<le> m_B s' \<and> m_N s' = m_N s + of_nat (length ws)"
  using assms
proof (induction ws arbitrary: vs s)
  case Nil
  then show ?case by simp
next
  case (Cons w ws)
  from insertImpl_inv [OF Cons.prems, of w] obtain s1 where
    1: "insertImpl h w s = Inr s1" "table_inv h (vs @ [w]) s1" "m_N s1 = m_N s + 1"
     "m_maxB s1 = m_maxB s" "m_B s \<le> m_B s1"
    by blast
  from Cons.IH [OF 1(2)] obtain s2 where
    2: "inserts h ws s1 = Inr s2" "table_inv h ((vs @ [w]) @ ws) s2"
     "m_maxB s2 = m_maxB s1" "m_B s1 \<le> m_B s2" "m_N s2 = m_N s1 + of_nat (length ws)"
    by blast
  show ?case using 1 2 by (auto simp: algebra_simps)
qed

lemma reachable_inv:
  assumes "1 \<le> mb" "mb < 2 ^ 31"
  shows "\<exists>s. inserts h ws (DictionaryImpl mb) = Inr s \<and> table_inv h ws s"
  using inserts_inv [OF DictionaryImpl_inv [OF assms], of h ws] by auto

subsection \<open>What a lookup visits\<close>

lemma lookupImpl_inv:
  assumes inv: "table_inv h ws s" and q: "canonical_key q \<noteq> []"
  shows "lookupImpl h s q (Some cb) u =
     Inr (s, fold cb (matching (canonical_key q) (map removeNonLetters ws)) u)"
proof -
  let ?k = "canonical_key q"
  let ?b = "h ?k mod unat (m_B s)"
  from inv have nz: "m_B s \<noteq> 0" by (simp add: table_inv_def)
  from q have q1: "removeNonLetters q \<noteq> []" by (simp add: canonical_key_def)
  have m: "matching ?k (chain s ?b) = matching ?k (map removeNonLetters ws)"
    using inv q by (simp add: table_inv_def)
  show ?thesis
  proof (cases "m_words s ?b")
    case None
    then have "chain s ?b = []" by (simp add: chain_def slot_def)
    with m have "matching ?k (map removeNonLetters ws) = []" by simp
    then show ?thesis
      using None nz q1 by (simp add: lookupImpl_def hash_ok canonical_key_def Let_def)
  next
    case (Some l)
    then have "chain s ?b = l" by (simp add: chain_def slot_def)
    with m have "matching ?k l = matching ?k (map removeNonLetters ws)" by simp
    then show ?thesis
      using Some nz q1
      by (simp add: lookupImpl_def hash_ok canonical_key_def Let_def lookup_loop_fold)
  qed
qed

lemma fold_record_visit: "fold record_visit xs tr = tr @ xs"
  by (induction xs arbitrary: tr) (auto simp: record_visit_def)

lemma matching_map_removeNonLetters:
  "matching k (map removeNonLetters ws) = map removeNonLetters (filter (\<lambda>w. canonical_key w = k) ws)"
  by (induction ws) (auto simp: matching_def canonical_key_def)

lemma canonical_key_Nil: "canonical_key q = [] \<longleftrightarrow> removeNonLetters q = []"
  by (simp add: canonical_key_def)

lemma lookupImpl_empty_key:
  "canonical_key q = [] \<Longrightarrow> lookupImpl h t q cb u = Inr (t, u)"
  by (simp add: lookupImpl_def canonical_key_Nil split: option.splits)

lemma visited_inv:
  assumes "table_inv h ws s"
  shows "visited h s q = Inr (map removeNonLetters
     (filter (\<lambda>w. canonical_key w = canonical_key q \<and> canonical_key q \<noteq> []) ws))"
proof (cases "canonical_key q = []")
  case True
  then show ?thesis by (simp add: visited_def lookupImpl_empty_key)
next
  case False
  then show ?thesis
    using lookupImpl_inv [OF assms False, of record_visit "[]"]
    by (simp add: visited_def fold_record_visit matching_map_removeNonLetters)
qed

lemma isalpha_tolower: "isalpha c \<Longrightarrow> isalpha (tolower c)"
  by (auto simp: isalpha_def tolower_def Let_def)

lemma tolower_tolower: "isalpha c \<Longrightarrow> tolower (tolower c) = tolower c"
  by (auto simp: isalpha_def tolower_def Let_def)

lemma removeNonLetters_idem: "removeNonLetters (removeNonLetters w) = removeNonLetters w"
  by (induction w) (auto simp: isalpha_tolower tolower_tolower)

lemma canonical_key_stored: "canonical_key (removeNonLetters w) = canonical_key w"
  by (simp add: canonical_key_def removeNonLetters_idem)

lemma stored_word:
  assumes inv: "table_inv h ws s" and v: "v \<in> set (chain s i)"
  shows "v \<in> removeNonLetters ` set ws" "v \<noteq> []" "i = h (std_sort v) mod unat (m_B s)"
proof -
  have "v \<in> set (matching (std_sort v) (chain s i))"
    using v by (simp add: matching_def)
  moreover have "matching (std_sort v) (chain s i) =
      (if std_sort v \<noteq> [] \<and> i = h (std_sort v) mod unat (m_B s)
         then matching (std_sort v) (map removeNonLetters ws) else [])"
    using inv by (simp add: table_inv_def)
  ultimately have a: "std_sort v \<noteq> [] \<and> i = h (std_sort v) mod unat (m_B s)"
    and b: "v \<in> set (matching (std_sort v) (map removeNonLetters ws))"
    by (auto split: if_splits)
  from a show "v \<noteq> []" "i = h (std_sort v) mod unat (m_B s)" by simp_all
  from b show "v \<in> removeNonLetters ` set ws" by (auto simp: matching_def)
qed

lemma stored_in_chain:
  assumes inv: "table_inv h ws s" and w: "w \<in> set ws" "canonical_key w \<noteq> []"
  shows "removeNonLetters w \<in> set (chain s (h (canonical_key w) mod unat (m_B s)))"
proof -
  let ?k = "canonical_key w"
  have "matching ?k (chain s (h ?k mod unat (m_B s))) = matching ?k (map removeNonLetters ws)"
    using inv w(2) by (simp add: table_inv_def)
  moreover have "removeNonLetters w \<in> set (matching ?k (map removeNonLetters ws))"
    using w(1) by (auto simp: matching_def canonical_key_def)
  ultimately have "removeNonLetters w \<in> set (matching ?k (chain s (h ?k mod unat (m_B s))))"
    by simp
  then show ?thesis by (simp add: matching_def)
qed

lemma table_inv_m_N [simp]: "table_inv h ws (s\<lparr>m_N := n\<rparr>) = table_inv h ws s"
  by (simp add: table_inv_def chain_def)

lemma reachable_table_inv:
  assumes "1 \<le> mb" "mb < 2 ^ 31" "inserts h ws (DictionaryImpl mb) = Inr s"
  shows "table_inv h ws s" "m_maxB s = m_maxB (DictionaryImpl mb)" "m_N s = of_nat (length ws)"
proof -
  from inserts_inv [OF DictionaryImpl_inv [OF assms(1,2)], of h ws] assms(3)
  have "table_inv h ([] @ ws) s \<and> m_maxB s = m_maxB (DictionaryImpl mb) \<and>
      m_N s = m_N (DictionaryImpl mb) + of_nat (length ws)"
    by auto
  then show "table_inv h ws s" "m_maxB s = m_maxB (DictionaryImpl mb)" "m_N s = of_nat (length ws)"
    by (simp_all add: DictionaryImpl_def Let_def)
qed

lemma lookup_after_eq:
  assumes "1 \<le> mb" "mb < 2 ^ 31"
  shows "lookup_after h mb ws q = Inr (map removeNonLetters
     (filter (\<lambda>w. canonical_key w = canonical_key q \<and> canonical_key q \<noteq> []) ws))"
proof -
  from reachable_inv [OF assms, of h ws] obtain s where
    "inserts h ws (DictionaryImpl mb) = Inr s" "table_inv h ws s" by blast
  then show ?thesis
    by (simp add: lookup_after_def Dictionary_def visited_inv)
qed

subsection \<open>Concrete words\<close>

lemma key_Dog: "canonical_key ''Dog!'' = ''dgo''" by code_simp
lemma key_god: "canonical_key ''god'' = ''dgo''" by code_simp
lemma key_g0d: "canonical_key ''g0d'' = ''dg''" by code_simp
lemma rnl_Dog: "removeNonLetters ''Dog!'' = ''dog''" by code_simp

lemma key_stop: "canonical_key ''stop'' = ''opst''" by code_simp
lemma key_pots: "canonical_key ''pots'' = ''opst''" by code_simp
lemma key_listen: "canonical_key ''listen'' = ''eilnst''" by code_simp
lemma key_enlist: "canonical_key ''enlist'' = ''eilnst''" by code_simp
lemma key_inlets: "canonical_key ''inlets'' = ''eilnst''" by code_simp
lemma key_silent: "canonical_key ''silent'' = ''eilnst''" by code_simp
lemma key_banana: "canonical_key ''banana'' = ''aaabnn''" by code_simp
lemma key_123: "canonical_key ''123'' = []" by code_simp
lemma key_God: "canonical_key ''God?'' = ''dgo''" by code_simp
lemma rnl_God: "removeNonLetters ''God?'' = ''god''" by code_simp
lemma rnl_listen: "removeNonLetters ''listen'' = ''listen''" by code_simp
lemma rnl_enlist: "removeNonLetters ''enlist'' = ''enlist''" by code_simp
lemma rnl_inlets: "removeNonLetters ''inlets'' = ''inlets''" by code_simp

lemma lookup_after_Dog_g0d:
  assumes "1 \<le> mb" "mb < 2 ^ 31"
  shows "lookup_after h mb [''Dog!''] ''g0d'' = Inr []"
proof -
  have "canonical_key ''Dog!'' \<noteq> canonical_key ''g0d''"
    unfolding key_Dog key_g0d by simp
  then show ?thesis
    unfolding lookup_after_eq [OF assms] by (simp del: removeNonLetters.simps)
qed

subsection \<open>Stored words\<close>

lemma bucket_of_stored:
  assumes inv: "table_inv h ws s" and v: "v \<in> set (chain s i)"
  shows "hash h s (canonical_key v) = Inr i"
proof -
  from stored_word [OF inv v] obtain w where
    w: "v = removeNonLetters w" and i: "i = h (std_sort v) mod unat (m_B s)"
    by auto
  from inv have nz: "m_B s \<noteq> 0" by (simp add: table_inv_def)
  have "canonical_key v = std_sort v"
    unfolding w canonical_key_def removeNonLetters_idem ..
  then show ?thesis using i nz by (simp add: hash_ok)
qed

lemma stored_visited:
  assumes inv: "table_inv h ws s" and v: "v \<in> set (chain s i)"
  shows "\<exists>tr. visited h s v = Inr tr \<and> v \<in> set tr"
proof -
  from stored_word [OF inv v] obtain w where
    w: "w \<in> set ws" "v = removeNonLetters w" and ne: "v \<noteq> []"
    by auto
  have k: "canonical_key w = canonical_key v" "canonical_key v \<noteq> []"
    using w ne by (simp_all add: canonical_key_stored canonical_key_Nil removeNonLetters_idem)
  show ?thesis
    unfolding visited_inv [OF inv] using w k by auto
qed

lemma inserted_visited:
  assumes inv: "table_inv h ws s" and w: "w \<in> set ws" "canonical_key w \<noteq> []"
  shows "\<exists>tr. visited h s w = Inr tr \<and> removeNonLetters w \<in> set tr"
  unfolding visited_inv [OF inv] using w by auto

lemma insertImpl_letterless:
  "removeNonLetters w = [] \<Longrightarrow> insertImpl h w s = tryRehash h (s\<lparr>m_N := m_N s + 1\<rparr>)"
  by (simp add: insertImpl_def split: sum.splits)

lemma visited_nonempty:
  assumes inv: "table_inv h ws s" and w: "canonical_key w = []"
  shows "\<exists>tr. visited h s q = Inr tr \<and> w \<notin> set tr"
proof -
  let ?tr = "map removeNonLetters
     (filter (\<lambda>w. canonical_key w = canonical_key q \<and> canonical_key q \<noteq> []) ws)"
  have "w \<notin> set ?tr"
  proof
    assume "w \<in> set ?tr"
    then obtain v where v: "w = removeNonLetters v" "canonical_key v = canonical_key q"
      "canonical_key q \<noteq> []"
      by auto
    from v(1) have "canonical_key w = canonical_key v" by (simp only: canonical_key_stored)
    with w v show False by simp
  qed
  then show ?thesis
    unfolding visited_inv [OF inv] by blast
qed

lemma not_stored:
  assumes inv: "table_inv h ws s" and w: "canonical_key w = []"
  shows "w \<notin> set (chain s i)"
proof
  assume "w \<in> set (chain s i)"
  from stored_word [OF inv this] obtain v where "w = removeNonLetters v" "w \<noteq> []" by auto
  then have "canonical_key w \<noteq> []"
    by (simp add: canonical_key_Nil removeNonLetters_idem)
  with w show False by simp
qed


subsection \<open>Single precision\<close>

text \<open>
  Rounding stays within the binade of its argument, is exact on the rationals with a
  24 bit significand, and \<open>f32_round x\<close> is above \<^verbatim>\<open>0.7f\<close>, which is 11744051 / \<open>2\<^sup>2\<^sup>4\<close>,
  exactly when \<open>x\<close> is at least the midpoint 23488103 / \<open>2\<^sup>2\<^sup>5\<close> of \<^verbatim>\<open>0.7f\<close> and the next
  \<^verbatim>\<open>float\<close>.
\<close>

lemma bit_length_bounds:
  "0 < n \<Longrightarrow> 2 ^ (bit_length n - 1) \<le> n \<and> n < 2 ^ bit_length n"
proof (induction n rule: bit_length.induct)
  case (1 n)
  show ?case
  proof (cases "n div 2 = 0")
    case True
    with "1.prems" have "n = Suc 0" by (simp add: div_eq_0_iff) 
    then show ?thesis by (simp add: bit_length.simps [of "Suc 0"] bit_length.simps [of 0])
  next
    case False
    then have pos: "0 < n div 2" by simp
    from "1.IH" [OF _ pos] "1.prems"
    have ih: "2 ^ (bit_length (n div 2) - 1) \<le> n div 2" "n div 2 < 2 ^ bit_length (n div 2)"
      by simp_all
    have bl: "bit_length n = Suc (bit_length (n div 2))"
      using "1.prems" by (simp add: bit_length.simps [of n])
    have blpos: "0 < bit_length (n div 2)"
      using pos by (simp add: bit_length.simps [of "n div 2"])
    have "2 ^ (bit_length n - 1) = 2 * 2 ^ (bit_length (n div 2) - 1)"
      using bl blpos by (cases "bit_length (n div 2)") simp_all
    also have "\<dots> \<le> 2 * (n div 2)" using ih(1) by simp
    also have "\<dots> \<le> n" by simp
    finally have lo: "2 ^ (bit_length n - 1) \<le> n" .
    have "n < 2 * (n div 2) + 2" by presburger
    also have "\<dots> \<le> 2 * 2 ^ bit_length (n div 2)" using ih(2) by simp
    finally have "n < 2 ^ bit_length n" using bl by simp
    with lo show ?thesis by simp
  qed
qed

lemma bit_length_pos: "0 < n \<Longrightarrow> 0 < bit_length n"
  by (simp add: bit_length.simps [of n])

lemma ilog2_bounds:
  assumes "0 < x"
  shows "2 powi (ilog2 x) \<le> x \<and> x < 2 powi (ilog2 x + 1)"
proof -
  obtain p q where pq: "quotient_of x = (p, q)" by (cases "quotient_of x")
  then have q: "0 < q" and x: "x = of_int p / of_int q"
    using quotient_of_denom_pos [OF pq] quotient_of_div [OF pq] by simp_all
  from assms x q have p: "0 < p"
    by (simp add: zero_less_divide_iff)
  define a b where "a = bit_length (nat p)" and "b = bit_length (nat q)"
  define d where "d = int a - int b"
  have ba: "2 ^ (a - 1) \<le> nat p" "nat p < 2 ^ a" and apos: "0 < a"
    using bit_length_bounds [of "nat p"] bit_length_pos [of "nat p"] p by (simp_all add: a_def)
  have bb: "2 ^ (b - 1) \<le> nat q" "nat q < 2 ^ b" and bpos: "0 < b"
    using bit_length_bounds [of "nat q"] bit_length_pos [of "nat q"] q by (simp_all add: b_def)
  have pr: "(of_int p :: rat) = of_nat (nat p)" "(of_int q :: rat) = of_nat (nat q)"
    using p q by simp_all
  have pa: "(2::rat) ^ (a - 1) \<le> of_int p" "(of_int p :: rat) < 2 ^ a"
    unfolding pr
    using ba of_nat_le_iff [where ?'a = rat, of "2 ^ (a - 1)" "nat p"]
      of_nat_less_iff [where ?'a = rat, of "nat p" "2 ^ a"]
    by simp_all
  have qb: "(2::rat) ^ (b - 1) \<le> of_int q" "(of_int q :: rat) < 2 ^ b"
    unfolding pr
    using bb of_nat_le_iff [where ?'a = rat, of "2 ^ (b - 1)" "nat q"]
      of_nat_less_iff [where ?'a = rat, of "nat q" "2 ^ b"]
    by simp_all
  have ppos: "(0::rat) \<le> of_int p" using p by simp
  have qpos: "(0::rat) < of_int q" using q by simp
  have up: "x < 2 powi (d + 1)"
  proof -
    have "x < 2 ^ a / 2 ^ (b - 1)"
      unfolding x by (rule frac_less [OF ppos pa(2) _ qb(1)]) simp
    also have "(2::rat) ^ a / 2 ^ (b - 1) = 2 powi (int a - int (b - 1))"
      by (simp add: power_int_diff)
    also have "int a - int (b - 1) = d + 1" using bpos by (simp add: d_def)
    finally show ?thesis .
  qed
  have lo: "2 powi (d - 1) \<le> x"
  proof -
    have "d - 1 = int (a - 1) - int b"
      using apos unfolding d_def by linarith
    then have "(2::rat) powi (d - 1) = 2 powi (int (a - 1) - int b)"
      by (simp only:)
    also have "\<dots> = 2 ^ (a - 1) / 2 ^ b" by (simp add: power_int_diff)
    also have "\<dots> \<le> x"
      unfolding x by (rule frac_le [OF ppos pa(1) qpos]) (use qb(2) in simp)
    finally show ?thesis .
  qed
  have il: "ilog2 x = (if x < 2 powi d then d - 1 else d)"
    by (simp add: ilog2_def pq a_def b_def d_def Let_def)
  show ?thesis
    using up lo by (auto simp: il not_less)
qed


lemma ilog2_unique:
  assumes "0 < x" "2 powi e \<le> x" "x < 2 powi (e + 1)"
  shows "ilog2 x = e"
proof -
  note b = ilog2_bounds [OF assms(1)]
  have one: "(1::rat) \<le> 2" by simp
  show ?thesis
  proof (rule ccontr)
    assume "ilog2 x \<noteq> e"
    then consider "ilog2 x + 1 \<le> e" | "e + 1 \<le> ilog2 x" by linarith
    then show False
    proof cases
      case 1
      from power_int_increasing [OF 1 one] have "(2::rat) powi (ilog2 x + 1) \<le> 2 powi e" .
      with b assms(2) show False by linarith
    next
      case 2
      from power_int_increasing [OF 2 one] have "(2::rat) powi (e + 1) \<le> 2 powi ilog2 x" .
      with b assms(3) show False by linarith
    qed
  qed
qed

lemma round_half_even_of_int [simp]: "round_half_even (of_int n) = n"
  by (simp add: round_half_even_def)

lemma round_half_even_le: "y \<le> of_int m \<Longrightarrow> round_half_even y \<le> m"
proof -
  assume a: "y \<le> of_int m"
  show ?thesis
  proof (cases "y = of_int m")
    case True
    then show ?thesis by simp
  next
    case False
    with a have "y < of_int m" by simp
    then have "\<lfloor>y\<rfloor> < m" by (simp add: floor_less_iff)
    then show ?thesis by (simp add: round_half_even_def Let_def)
  qed
qed

lemma round_half_even_ge: "of_int m \<le> y \<Longrightarrow> m \<le> round_half_even y"
proof -
  assume "of_int m \<le> y"
  then have "m \<le> \<lfloor>y\<rfloor>" by (simp add: le_floor_iff)
  then show ?thesis by (simp add: round_half_even_def Let_def)
qed

lemma round_half_even_gt_odd:
  assumes "odd m"
  shows "m < round_half_even y \<longleftrightarrow> of_int m + 1 / 2 \<le> y"
proof -
  define f where "f = \<lfloor>y\<rfloor>"
  have f: "of_int f \<le> y" "y < of_int f + 1"
    unfolding f_def by linarith+
  have r: "round_half_even y = (if 1 / 2 < y - of_int f \<or> (y - of_int f = 1 / 2 \<and> odd f) then f + 1 else f)"
    by (simp add: round_half_even_def f_def Let_def)
  show ?thesis
  proof
    assume lt: "m < round_half_even y"
    show "of_int m + 1 / 2 \<le> y"
    proof (cases "m < f")
      case True
      then have "m + 1 \<le> f" by simp
      then have "(of_int m :: rat) + 1 \<le> of_int f" by (metis of_int_1 of_int_add of_int_le_iff)
      with f(1) show ?thesis by linarith
    next
      case False
      with lt r have fm: "f = m" and c: "1 / 2 < y - of_int f \<or> (y - of_int f = 1 / 2 \<and> odd f)"
        by (auto split: if_splits)
      then show ?thesis by auto
    qed
  next
    assume ge: "of_int m + 1 / 2 \<le> y"
    then have "of_int m \<le> y" by linarith
    then have mf: "m \<le> f" unfolding f_def by (simp add: le_floor_iff)
    show "m < round_half_even y"
    proof (cases "m = f")
      case True
      with ge have "1 / 2 \<le> y - of_int f" by simp
      then have "1 / 2 < y - of_int f \<or> (y - of_int f = 1 / 2 \<and> odd f)"
        using assms True by auto
      with r True show ?thesis by simp
    next
      case False
      with mf have "m < f" by simp
      with r show ?thesis by auto
    qed
  qed
qed


lemma f32_round_pos:
  assumes "0 < x"
  shows "f32_round x = of_int (round_half_even (x / 2 powi (ilog2 x - 23))) * 2 powi (ilog2 x - 23)"
  using assms by (simp add: f32_round_def Let_def)

lemma pow2_split: "(2::rat) powi e = 2 ^ 23 * 2 powi (e - 23)"
proof -
  have "(2::rat) powi e = 2 powi (23 + (e - 23))" by simp
  also have "\<dots> = 2 powi 23 * 2 powi (e - 23)" by (rule power_int_add) simp
  finally show ?thesis by simp
qed

lemma f32_round_binade:
  assumes "0 < x"
  shows "2 powi (ilog2 x) \<le> f32_round x" "f32_round x \<le> 2 powi (ilog2 x + 1)"
proof -
  define e where "e = ilog2 x"
  define ulp :: rat where "ulp = 2 powi (e - 23)"
  have ulp: "0 < ulp" by (simp add: ulp_def)
  from ilog2_bounds [OF assms] have b: "2 powi e \<le> x" "x < 2 powi (e + 1)"
    by (simp_all add: e_def)
  have lo: "2 powi e = 2 ^ 23 * ulp" unfolding ulp_def by (rule pow2_split)
  have "(2::rat) powi (e + 1) = 2 ^ 23 * 2 powi (e + 1 - 23)" by (rule pow2_split)
  also have "(2::rat) powi (e + 1 - 23) = 2 powi (1 + (e - 23))" by (simp add: algebra_simps)
  also have "\<dots> = 2 powi 1 * 2 powi (e - 23)" by (rule power_int_add) simp
  finally have hi: "2 powi (e + 1) = 2 ^ 24 * ulp" by (simp add: ulp_def)
  have y1: "of_int (2 ^ 23) \<le> x / ulp"
    using b(1) ulp by (simp add: lo le_divide_eq)
  have y2: "x / ulp \<le> of_int (2 ^ 24)"
    using b(2) ulp by (simp add: hi divide_le_eq)
  have r: "f32_round x = of_int (round_half_even (x / ulp)) * ulp"
    using f32_round_pos [OF assms] by (simp add: e_def ulp_def)
  from round_half_even_ge [OF y1] have "(of_int (2 ^ 23) :: rat) \<le> of_int (round_half_even (x / ulp))"
    by (simp only: of_int_le_iff)
  then have "2 ^ 23 * ulp \<le> of_int (round_half_even (x / ulp)) * ulp"
    using ulp by simp
  then show "2 powi (ilog2 x) \<le> f32_round x"
    using lo by (simp add: r e_def [symmetric])
  from round_half_even_le [OF y2] have "(of_int (round_half_even (x / ulp)) :: rat) \<le> of_int (2 ^ 24)"
    by (simp only: of_int_le_iff)
  then have "of_int (round_half_even (x / ulp)) * ulp \<le> 2 ^ 24 * ulp"
    using ulp by simp
  then show "f32_round x \<le> 2 powi (ilog2 x + 1)"
    using hi by (simp add: r e_def [symmetric])
qed

lemma f32_round_gt_07:
  assumes "0 < x"
  shows "11744051 / 16777216 < f32_round x \<longleftrightarrow> 23488103 / 33554432 \<le> x"
proof -
  define e where "e = ilog2 x"
  from ilog2_bounds [OF assms] have b: "2 powi e \<le> x" "x < 2 powi (e + 1)"
    by (simp_all add: e_def)
  note r = f32_round_binade [OF assms, folded e_def]
  have one: "(1::rat) \<le> 2" by simp
  consider "e \<le> -2" | "e = -1" | "0 \<le> e" by linarith
  then show ?thesis
  proof cases
    case 1
    then have "e + 1 \<le> -1" by simp
    from power_int_increasing [OF this one] have "(2::rat) powi (e + 1) \<le> 1 / 2"
      by (simp add: power_int_minus)
    with b(2) r(2) show ?thesis by auto
  next
    case 3
    from power_int_increasing [OF 3 one] have "(1::rat) \<le> 2 powi e" by simp
    with b(1) r(1) show ?thesis by auto
  next
    case 2
    have u: "(2::rat) powi (e - 23) = 1 / 16777216"
      using 2 by (simp add: power_int_minus)
    have fr: "f32_round x = of_int (round_half_even (x * 16777216)) / 16777216"
      using f32_round_pos [OF assms] by (simp add: e_def [symmetric] u)
    have "11744051 / 16777216 < f32_round x \<longleftrightarrow>
        (of_int 11744051 :: rat) < of_int (round_half_even (x * 16777216))"
      by (simp add: fr)
    also have "\<dots> \<longleftrightarrow> 11744051 < round_half_even (x * 16777216)"
      by (simp only: of_int_less_iff)
    also have "\<dots> \<longleftrightarrow> of_int 11744051 + 1 / 2 \<le> x * 16777216"
      by (rule round_half_even_gt_odd) simp
    also have "\<dots> \<longleftrightarrow> 23488103 / 33554432 \<le> x"
      by (simp add: field_simps)
    finally show ?thesis .
  qed
qed


lemma f32_round_07: "f32_round (7 / 10) = 11744051 / 16777216"
  by code_simp

lemma f32_round_exact:
  assumes "m < 2 ^ 24"
  shows "f32_round (of_nat (m * 2 ^ j)) = of_nat (m * 2 ^ j)"
proof (cases "m = 0")
  case True
  then show ?thesis by (simp add: f32_round_def)
next
  case False
  define x :: rat where "x = of_nat (m * 2 ^ j)"
  have xpos: "0 < x" using False by (simp add: x_def)
  define e where "e = ilog2 x"
  from ilog2_bounds [OF xpos] have b: "2 powi e \<le> x" by (simp add: e_def)
  have one: "(1::rat) \<le> 2" by simp
  have "(of_nat m :: rat) < 2 ^ 24"
    using assms of_nat_less_iff [where ?'a = rat, of m "2 ^ 24"] by simp
  then have "x < 2 ^ 24 * 2 ^ j" by (simp add: x_def)
  also have "(2::rat) ^ 24 * 2 ^ j = 2 powi (24 + int j)"
    by (simp add: power_int_add)
  finally have xlt: "x < 2 powi (24 + int j)" .
  have elt: "e < 24 + int j"
  proof (rule ccontr)
    assume "\<not> e < 24 + int j"
    then have "24 + int j \<le> e" by simp
    from power_int_increasing [OF this one] b xlt show False by linarith
  qed
  define k where "k = nat (int j + 23 - e)"
  have k: "int k = int j + 23 - e" using elt by (simp add: k_def)
  have "(2::rat) powi int j = 2 powi (int k + (e - 23))" using k by simp
  also have "\<dots> = 2 powi int k * 2 powi (e - 23)" by (rule power_int_add) simp
  finally have pj: "(2::rat) ^ j = 2 ^ k * 2 powi (e - 23)" by simp
  have ulp: "(0::rat) < 2 powi (e - 23)" by simp
  have "x / 2 powi (e - 23) = of_nat m * 2 ^ k"
    using ulp by (simp add: x_def pj)
  also have "\<dots> = of_int (int (m * 2 ^ k))" by simp
  finally have y: "x / 2 powi (e - 23) = of_int (int (m * 2 ^ k))" .
  have "f32_round x = of_int (round_half_even (x / 2 powi (e - 23))) * 2 powi (e - 23)"
    using f32_round_pos [OF xpos] by (simp add: e_def)
  also have "\<dots> = of_int (int (m * 2 ^ k)) * 2 powi (e - 23)"
    unfolding y round_half_even_of_int ..
  also have "\<dots> = x" by (simp add: x_def pj)
  finally show ?thesis by (simp add: x_def)
qed

lemma f32_round_exact_small:
  "n < 2 ^ 24 \<Longrightarrow> f32_round (of_nat n) = of_nat n"
  using f32_round_exact [of n 0] by simp

lemma load_factor_exceeded_iff:
  assumes B: "f32_round (of_nat (unat B)) = of_nat (unat B)" and nz: "B \<noteq> 0"
  shows "load_factor_exceeded N B \<longleftrightarrow>
     23488103 * of_nat (unat B) \<le> 33554432 * f32_round (of_nat (unat N))"
proof -
  define n where "n = f32_round (of_nat (unat N))"
  define b :: rat where "b = of_nat (unat B)"
  have "0 < unat B" using nz by (simp add: unat_gt_0)
  then have bpos: "0 < b" by (simp add: b_def del: of_nat_unat)
  have fb: "f32_round b = b" unfolding b_def by (rule B)
  have lf: "load_factor_exceeded N B \<longleftrightarrow> 11744051 / 16777216 < f32_round (n / b)"
    using bpos unfolding load_factor_exceeded_def n_def [symmetric] b_def [symmetric]
    by (simp add: f32_round_07 Let_def fb)
  have nn: "0 \<le> n"
  proof (cases "unat N = 0")
    case True
    then show ?thesis by (simp add: n_def f32_round_def del: of_nat_unat)
  next
    case False
    then have "(0::rat) < of_nat (unat N)" by (simp del: of_nat_unat)
    from f32_round_binade(1) [OF this] show ?thesis
      unfolding n_def by (smt (verit) zero_less_power_int zero_less_numeral le_less_trans less_imp_le not_le)
  qed
  have "load_factor_exceeded N B \<longleftrightarrow> 23488103 * b \<le> 33554432 * n"
  proof (cases "n = 0")
    case True
    then show ?thesis
      using bpos by (simp add: lf f32_round_def)
  next
    case False
    with nn have "0 < n / b" using bpos by simp
    from f32_round_gt_07 [OF this] show ?thesis
      using bpos by (simp add: lf le_divide_eq mult.commute)
  qed
  then show ?thesis unfolding n_def b_def .
qed

lemma load_factor_exceeded_small:
  assumes "unat N < 2 ^ 24" "B \<noteq> 0" "unat B \<le> 5592405"
  shows "load_factor_exceeded N B \<longleftrightarrow> 7 * unat B < 10 * unat N"
proof -
  have bs: "unat B < 2 ^ 24" using assms(3) by simp
  have "load_factor_exceeded N B \<longleftrightarrow>
      (23488103 :: rat) * of_nat (unat B) \<le> 33554432 * of_nat (unat N)"
    unfolding load_factor_exceeded_iff [OF f32_round_exact_small [OF bs] assms(2), of N]
      f32_round_exact_small [OF assms(1)] ..
  also have "\<dots> \<longleftrightarrow> (of_nat (23488103 * unat B) :: rat) \<le> of_nat (33554432 * unat N)"
    by (simp del: of_nat_unat)
  also have "\<dots> \<longleftrightarrow> 23488103 * unat B \<le> 33554432 * unat N"
    by (simp only: of_nat_le_iff)
  also have "\<dots> \<longleftrightarrow> 7 * unat B < 10 * unat N"
    using assms(2,3) unat_gt_0 [of B] by auto
  finally show ?thesis .
qed

subsection \<open>The bucket count after an insert\<close>

lemma transfer_buckets_empty:
  "transfer_buckets h s (\<lambda>i. None) js arr = Inr arr"
  by (induction js) simp_all

lemma tryRehash_m_B:
  assumes inv: "table_inv h ws s"
  shows "\<exists>s1. tryRehash h s = Inr s1 \<and> table_inv h ws s1 \<and> m_N s1 = m_N s \<and> m_maxB s1 = m_maxB s \<and>
     m_B s1 = (if m_B s < m_maxB s \<and> load_factor_exceeded (m_N s) (m_B s)
               then (if 2 * m_B s < m_maxB s then 2 * m_B s else m_maxB s) else m_B s)"
proof -
  from tryRehash_inv [OF inv] obtain s1 where
    s1: "tryRehash h s = Inr s1" "table_inv h ws s1" "m_N s1 = m_N s" "m_maxB s1 = m_maxB s"
    by blast
  have "m_B s1 = (if m_B s < m_maxB s \<and> load_factor_exceeded (m_N s) (m_B s)
               then (if 2 * m_B s < m_maxB s then 2 * m_B s else m_maxB s) else m_B s)"
  proof (cases "m_B s < m_maxB s \<and> load_factor_exceeded (m_N s) (m_B s)")
    case True
    from tryRehash_grow [OF inv] True s1(1) show ?thesis by auto
  next
    case False
    from tryRehash_unchanged [OF False, of h] s1(1) False show ?thesis by auto
  qed
  with s1 show ?thesis by blast
qed

lemma insertImpl_m_B:
  assumes inv: "table_inv h ws s"
  shows "\<exists>s1 s'. tryRehash h (s\<lparr>m_N := m_N s + 1\<rparr>) = Inr s1 \<and> insertImpl h w s = Inr s' \<and>
     m_N s1 = m_N s + 1 \<and> m_N s' = m_N s + 1 \<and> m_B s' = m_B s1 \<and> m_maxB s' = m_maxB s \<and>
     (removeNonLetters w = [] \<longrightarrow> s' = s1) \<and>
     m_B s' = (if m_B s < m_maxB s \<and> load_factor_exceeded (m_N s + 1) (m_B s)
               then (if 2 * m_B s < m_maxB s then 2 * m_B s else m_maxB s) else m_B s)"
proof -
  have inv0: "table_inv h ws (s\<lparr>m_N := m_N s + 1\<rparr>)" using inv by simp
  from tryRehash_m_B [OF inv0] obtain s1 where
    s1: "tryRehash h (s\<lparr>m_N := m_N s + 1\<rparr>) = Inr s1" "table_inv h ws s1"
      "m_N s1 = m_N s + 1" "m_maxB s1 = m_maxB s"
      "m_B s1 = (if m_B s < m_maxB s \<and> load_factor_exceeded (m_N s + 1) (m_B s)
               then (if 2 * m_B s < m_maxB s then 2 * m_B s else m_maxB s) else m_B s)"
    by auto
  from s1(2) have nz: "m_B s1 \<noteq> 0" by (simp add: table_inv_def)
  obtain s' where s': "insertImpl h w s = Inr s'" "m_N s' = m_N s1" "m_B s' = m_B s1"
    "m_maxB s' = m_maxB s1" "removeNonLetters w = [] \<longrightarrow> s' = s1"
    using s1(1) nz by (cases "removeNonLetters w = []") (simp_all add: insertImpl_def hash_ok Let_def)
  with s1 show ?thesis by auto
qed

lemma lf_small_10:
  "load_factor_exceeded 8 10" "\<not> load_factor_exceeded 7 10" "\<not> load_factor_exceeded 6 10"
  "\<not> load_factor_exceeded 5 10" "\<not> load_factor_exceeded 4 10" "\<not> load_factor_exceeded 3 10"
  "\<not> load_factor_exceeded 2 10" "\<not> load_factor_exceeded 1 10"
  by (simp_all add: load_factor_exceeded_small)

lemma run_seven_letterless:
  "inserts h [[], [], [], [], [], [], []] (DictionaryImpl 20) =
     Inr \<lparr>m_maxB = 20, m_B = 10, m_N = 7, m_words = \<lambda>i. None\<rparr>"
  by (simp add: DictionaryImpl_def insertImpl_letterless tryRehash_def lf_small_10)

lemma eighth_letterless:
  "insertImpl h [] \<lparr>m_maxB = 20, m_B = 10, m_N = 7, m_words = \<lambda>i. None\<rparr> =
     Inr \<lparr>m_maxB = 20, m_B = 20, m_N = 8, m_words = \<lambda>i. None\<rparr>"
  by (simp add: insertImpl_letterless tryRehash_def lf_small_10 transfer_buckets_empty)

subsection \<open>A table of 41943040 buckets\<close>

text \<open>
  The table for 100000000 buckets after \<open>n\<close> inserts of the empty word, for \<open>n\<close> up to
  29360128: it has \<open>10 * 2\<^sup>k\<close> buckets for the least \<open>k\<close> with \<open>n \<le> 7 * 2\<^sup>k\<close>.
\<close>

lemma f32_round_29360129: "f32_round 29360129 = 29360128"
proof -
  have "ilog2 29360129 = 24"
    by (rule ilog2_unique) simp_all
  moreover have "\<lfloor>29360129 / 2 :: rat\<rfloor> = 14680064"
    by (simp add: floor_eq_iff)
  ultimately show ?thesis
    by (simp add: f32_round_def round_half_even_def)
qed

lemma f32_round_41943040: "f32_round 41943040 = 41943040"
  using f32_round_exact [of 5 23] by simp

lemma lf_29360129: "\<not> load_factor_exceeded 29360129 41943040"
  by (simp add: load_factor_exceeded_def f32_round_29360129 f32_round_41943040 Let_def)

lemma insert_29360129:
  "insertImpl h [] \<lparr>m_maxB = 100000000, m_B = 41943040, m_N = 29360128, m_words = \<lambda>i. None\<rparr> =
     Inr \<lparr>m_maxB = 100000000, m_B = 41943040, m_N = 29360129, m_words = \<lambda>i. None\<rparr>"
  by (simp add: insertImpl_letterless tryRehash_def lf_29360129)

lemma f32_round_le:
  assumes "m < 2 ^ 24" "0 \<le> x" "x \<le> of_nat (m * 2 ^ j)"
  shows "f32_round x \<le> of_nat (m * 2 ^ j)"
proof (cases "x = 0")
  case True
  then show ?thesis by (simp add: f32_round_def)
next
  case False
  with assms(2) have xpos: "0 < x" by simp
  define e where "e = ilog2 x"
  from ilog2_bounds [OF xpos] have b: "2 powi e \<le> x" by (simp add: e_def)
  have one: "(1::rat) \<le> 2" by simp
  have "(of_nat m :: rat) < 2 ^ 24"
    using assms(1) of_nat_less_iff [where ?'a = rat, of m "2 ^ 24"] by simp
  then have "(of_nat (m * 2 ^ j) :: rat) < 2 ^ 24 * 2 ^ j" by simp
  also have "(2::rat) ^ 24 * 2 ^ j = 2 powi (24 + int j)"
    by (simp add: power_int_add)
  finally have xlt: "x < 2 powi (24 + int j)" using assms(3) by simp
  have elt: "e < 24 + int j"
  proof (rule ccontr)
    assume "\<not> e < 24 + int j"
    then have "24 + int j \<le> e" by simp
    from power_int_increasing [OF this one] b xlt show False by linarith
  qed
  define k where "k = nat (int j + 23 - e)"
  have k: "int k = int j + 23 - e" using elt by (simp add: k_def)
  have "(2::rat) powi int j = 2 powi (int k + (e - 23))" using k by simp
  also have "\<dots> = 2 powi int k * 2 powi (e - 23)" by (rule power_int_add) simp
  finally have pj: "(2::rat) ^ j = 2 ^ k * 2 powi (e - 23)" by simp
  have ulp: "(0::rat) < 2 powi (e - 23)" by simp
  have "x / 2 powi (e - 23) \<le> of_nat (m * 2 ^ j) / 2 powi (e - 23)"
    using assms(3) ulp by (simp add: divide_right_mono)
  also have "(of_nat (m * 2 ^ j) :: rat) / 2 powi (e - 23) = of_nat m * 2 ^ k"
    using ulp by (simp add: pj)
  also have "\<dots> = of_int (int (m * 2 ^ k))" by simp
  finally have "round_half_even (x / 2 powi (e - 23)) \<le> int (m * 2 ^ k)"
    by (rule round_half_even_le)
  then have "(of_int (round_half_even (x / 2 powi (e - 23))) :: rat) \<le> of_int (int (m * 2 ^ k))"
    by (simp only: of_int_le_iff)
  then have "(of_int (round_half_even (x / 2 powi (e - 23))) :: rat) * 2 powi (e - 23)
      \<le> of_int (int (m * 2 ^ k)) * 2 powi (e - 23)"
    using ulp by (intro mult_right_mono) simp_all
  also have "\<dots> = of_nat (m * 2 ^ j)" by (simp add: pj)
  finally show ?thesis
    using f32_round_pos [OF xpos] by (simp add: e_def)
qed

lemma pow2_le_22: "k \<le> 22 \<Longrightarrow> (2::nat) ^ k \<le> 4194304"
  using power_increasing [of k 22 "2::nat"] by simp

lemma pow2_le_21: "k \<le> 21 \<Longrightarrow> (2::nat) ^ k \<le> 2097152"
  using power_increasing [of k 21 "2::nat"] by simp

lemma unat_buckets:
  assumes "k \<le> 22"
  shows "unat (10 * 2 ^ k :: 32 word) = 10 * 2 ^ k"
proof -
  have "(10 * 2 ^ k :: 32 word) = of_nat (10 * 2 ^ k)" by simp
  then have "unat (10 * 2 ^ k :: 32 word) = (10 * 2 ^ k) mod 2 ^ 32"
    by (simp only: unat_of_nat) simp
  then show ?thesis using pow2_le_22 [OF assms] by simp
qed

lemma unat_items:
  assumes "n \<le> 29360128"
  shows "unat (of_nat n :: 32 word) = n"
  using assms by (simp add: unat_of_nat)

lemma lf_below:
  assumes "k \<le> 22" "n \<le> 7 * 2 ^ k"
  shows "\<not> load_factor_exceeded (of_nat n) (of_nat (10 * 2 ^ k))"
proof -
  let ?B = "of_nat (10 * 2 ^ k) :: 32 word"
  let ?N = "of_nat n :: 32 word"
  note t = pow2_le_22 [OF assms(1)]
  have uB: "unat ?B = 5 * 2 ^ (k + 1)" using unat_buckets [OF assms(1)] by simp
  have nb: "n \<le> 29360128" using assms(2) t by simp
  have uN: "unat ?N = n" by (rule unat_items [OF nb])
  have nz: "?B \<noteq> 0" using uB by (metis mult_is_0 power_not_zero unat_0 zero_neq_numeral)
  have ex: "f32_round (of_nat (unat ?B)) = of_nat (unat ?B)"
    unfolding uB by (rule f32_round_exact) simp
  have "(of_nat n :: rat) \<le> of_nat (7 * 2 ^ k)"
    using assms(2) by (simp only: of_nat_le_iff)
  from f32_round_le [OF _ _ this] have f: "f32_round (of_nat n) \<le> 7 * 2 ^ k" by simp
  have p: "(0::rat) < 2 ^ k" by simp
  have "(23488103::rat) * of_nat (5 * 2 ^ (k + 1)) = 234881030 * 2 ^ k" by simp
  moreover have "\<not> 234881030 * 2 ^ k \<le> 33554432 * f32_round (of_nat n)"
    using f p by linarith
  ultimately show ?thesis
    unfolding load_factor_exceeded_iff [OF ex nz] uB uN by simp
qed

lemma lf_above:
  assumes "k \<le> 21"
  shows "load_factor_exceeded (of_nat (7 * 2 ^ k + 1)) (of_nat (10 * 2 ^ k))"
proof -
  let ?B = "of_nat (10 * 2 ^ k) :: 32 word"
  let ?N = "of_nat (7 * 2 ^ k + 1) :: 32 word"
  note t = pow2_le_21 [OF assms]
  have k22: "k \<le> 22" using assms by simp
  have uB: "unat ?B = 5 * 2 ^ (k + 1)" using unat_buckets [OF k22] by simp
  have uN: "unat ?N = 7 * 2 ^ k + 1" using t by (intro unat_items) simp
  have nz: "?B \<noteq> 0" using uB by (metis mult_is_0 power_not_zero unat_0 zero_neq_numeral)
  have ex: "f32_round (of_nat (unat ?B)) = of_nat (unat ?B)"
    unfolding uB by (rule f32_round_exact) simp
  have exN: "f32_round (of_nat (7 * 2 ^ k + 1)) = of_nat (7 * 2 ^ k + 1)"
    using t by (intro f32_round_exact_small) simp
  have "(of_nat (2 ^ k) :: rat) \<le> of_nat 2097152"
    using t by (simp only: of_nat_le_iff)
  then have "(2::rat) ^ k \<le> 2097152" by simp
  then have "234881030 * (2::rat) ^ k \<le> 33554432 * (7 * 2 ^ k + 1)"
    by (simp add: algebra_simps)
  moreover have "(23488103::rat) * of_nat (5 * 2 ^ (k + 1)) = 234881030 * 2 ^ k" by simp
  moreover have "(of_nat (7 * 2 ^ k + 1) :: rat) = 7 * 2 ^ k + 1" by simp
  ultimately show ?thesis
    unfolding load_factor_exceeded_iff [OF ex nz] uB uN exN by simp
qed

lemma letterless_step_same:
  assumes "k \<le> 22" "Suc n \<le> 7 * 2 ^ k"
  shows "insertImpl h []
      \<lparr>m_maxB = 100000000, m_B = 10 * 2 ^ k, m_N = of_nat n, m_words = \<lambda>i. None\<rparr> =
     Inr \<lparr>m_maxB = 100000000, m_B = 10 * 2 ^ k, m_N = of_nat (Suc n), m_words = \<lambda>i. None\<rparr>"
proof -
  have "\<not> load_factor_exceeded (of_nat n + 1) (10 * 2 ^ k)"
    using lf_below [OF assms] by (simp add: add.commute)
  then show ?thesis
    by (simp add: insertImpl_letterless tryRehash_def add.commute)
qed

lemma letterless_step_grow:
  assumes "k \<le> 21" "n = 7 * 2 ^ k"
  shows "insertImpl h []
      \<lparr>m_maxB = 100000000, m_B = 10 * 2 ^ k, m_N = of_nat n, m_words = \<lambda>i. None\<rparr> =
     Inr \<lparr>m_maxB = 100000000, m_B = 10 * 2 ^ Suc k, m_N = of_nat (Suc n), m_words = \<lambda>i. None\<rparr>"
proof -
  have lf: "load_factor_exceeded (of_nat n + 1) (10 * 2 ^ k)"
    using lf_above [OF assms(1)] assms(2) by (simp add: add.commute)
  have k22: "k \<le> 22" "Suc k \<le> 22" using assms(1) by simp_all
  note t = pow2_le_21 [OF assms(1)]
  have u1: "unat (10 * 2 ^ k :: 32 word) = 10 * 2 ^ k" by (rule unat_buckets [OF k22(1)])
  have u2: "unat (20 * 2 ^ k :: 32 word) = 20 * 2 ^ k" using unat_buckets [OF k22(2)] by simp
  have lt1: "(10 * 2 ^ k :: 32 word) < 100000000"
    using t by (simp add: word_less_nat_alt u1)
  have lt2: "(20 * 2 ^ k :: 32 word) < 100000000"
    using t by (simp add: word_less_nat_alt u2)
  have b1: "\<not> 2147483648 \<le> unat (10 * 2 ^ k :: 32 word)"
    using t unfolding u1 by simp
  have b2: "\<not> 2147483648 \<le> unat (20 * 2 ^ k :: 32 word)"
    using t unfolding u2 by simp
  show ?thesis
    using lf lt1 lt2 b1 b2
    by (simp add: insertImpl_letterless tryRehash_def transfer_buckets_empty Let_def add.commute)
qed

lemma run_letterless:
  "n \<le> 29360128 \<Longrightarrow>
   \<exists>k\<le>22. inserts h (replicate n []) (DictionaryImpl 100000000) =
       Inr \<lparr>m_maxB = 100000000, m_B = 10 * 2 ^ k, m_N = of_nat n, m_words = \<lambda>i. None\<rparr> \<and>
     n \<le> 7 * 2 ^ k \<and> (k = 0 \<or> 7 * 2 ^ (k - 1) < n)"
proof (induction n)
  case 0
  have "inserts h (replicate 0 []) (DictionaryImpl 100000000) =
       Inr \<lparr>m_maxB = 100000000, m_B = 10 * 2 ^ 0, m_N = of_nat 0, m_words = \<lambda>i. None\<rparr>"
    by (simp add: DictionaryImpl_def)
  then show ?case by (intro exI [of _ 0]) simp
next
  case (Suc n)
  then obtain k where k: "k \<le> 22"
    and run: "inserts h (replicate n []) (DictionaryImpl 100000000) =
       Inr \<lparr>m_maxB = 100000000, m_B = 10 * 2 ^ k, m_N = of_nat n, m_words = \<lambda>i. None\<rparr>"
    and le: "n \<le> 7 * 2 ^ k" and gt: "k = 0 \<or> 7 * 2 ^ (k - 1) < n"
    by auto
  have rep: "replicate (Suc n) [] = replicate n [] @ [[] :: string]"
    by (simp add: replicate_append_same)
  have step: "inserts h (replicate (Suc n) []) (DictionaryImpl 100000000) =
      insertImpl h [] \<lparr>m_maxB = 100000000, m_B = 10 * 2 ^ k, m_N = of_nat n, m_words = \<lambda>i. None\<rparr>"
    unfolding rep inserts_append run by (simp split: sum.splits)
  show ?case
  proof (cases "Suc n \<le> 7 * 2 ^ k")
    case True
    have "k = 0 \<or> 7 * 2 ^ (k - 1) < Suc n" using gt by auto
    with k True step letterless_step_same [OF k True, of h] show ?thesis
      by (intro exI [of _ k]) simp
  next
    case False
    with le have n: "n = 7 * 2 ^ k" by simp
    have k21: "k \<le> 21"
    proof (rule ccontr)
      assume "\<not> k \<le> 21"
      with k have "k = 22" by simp
      with n Suc.prems show False by simp
    qed
    have "Suc n \<le> 7 * 2 ^ Suc k" using n by simp
    moreover have "7 * 2 ^ (Suc k - 1) < Suc n" using n by simp
    moreover have "Suc k \<le> 22" using k21 by simp
    ultimately show ?thesis
      using step letterless_step_grow [OF k21 n, of h]
      by (intro exI [of _ "Suc k"]) (simp del: power_Suc)
  qed
qed

lemma run_29360128:
  "inserts h (replicate 29360128 []) (DictionaryImpl 100000000) =
     Inr \<lparr>m_maxB = 100000000, m_B = 41943040, m_N = 29360128, m_words = \<lambda>i. None\<rparr>"
proof -
  from run_letterless [of 29360128 h] obtain k where k: "k \<le> 22"
    and run: "inserts h (replicate 29360128 []) (DictionaryImpl 100000000) =
       Inr \<lparr>m_maxB = 100000000, m_B = 10 * 2 ^ k, m_N = of_nat 29360128, m_words = \<lambda>i. None\<rparr>"
    and le: "29360128 \<le> 7 * (2::nat) ^ k"
    by auto
  have "k = 22"
  proof (rule ccontr)
    assume "k \<noteq> 22"
    with k have "k \<le> 21" by simp
    from pow2_le_21 [OF this] le show False by simp
  qed
  with run show ?thesis by simp
qed

subsection \<open>Two small tables\<close>

lemma sort_listen: "std_sort ''listen'' = ''eilnst''" by code_simp
lemma hash_eilnst: "sample_hash ''eilnst'' = 655" by code_simp

lemma run_listen:
  "inserts sample_hash [''listen'', [], [], [], [], [], []] (DictionaryImpl 20) =
     Inr \<lparr>m_maxB = 20, m_B = 10, m_N = 7, m_words = (\<lambda>i. None)(5 := Some [''listen''])\<rparr>"
  by (simp add: DictionaryImpl_def insertImpl_def tryRehash_def lf_small_10 hash_def push_back_def
      rnl_listen sort_listen hash_eilnst del: removeNonLetters.simps)
    (simp add: insertImpl_def tryRehash_def lf_small_10)

lemma upt_10: "[0..<10] = [0, 1, 2, 3, 4, 5, 6, 7, 8, 9]"
  by (simp add: upt_rec)

lemma grow_listen:
  "tryRehash sample_hash
     \<lparr>m_maxB = 20, m_B = 10, m_N = 8, m_words = (\<lambda>i. None)(5 := Some [''listen''])\<rparr> =
   Inr \<lparr>m_maxB = 20, m_B = 20, m_N = 8, m_words = (\<lambda>i. None)(15 := Some [''listen''])\<rparr>"
  by (simp add: tryRehash_def lf_small_10 upt_10 hash_def push_back_def sort_listen hash_eilnst)

lemma rnl_stop: "removeNonLetters ''stop'' = ''stop''" by code_simp
lemma sort_stop: "std_sort ''stop'' = ''opst''" by code_simp
lemma sort_spot: "std_sort ''spot'' = ''opst''" by code_simp
lemma sort_aa: "std_sort ''aa'' = ''aa''" by code_simp
lemma hash_opst: "sample_hash ''opst'' = 454" by code_simp

lemma lookup_stop:
  "lookupImpl sample_hash
     \<lparr>m_maxB = 10, m_B = 10, m_N = 2, m_words = (\<lambda>i. None)(4 := Some [''aa'', ''spot''])\<rparr>
     ''stop'' (Some record_visit) [] =
   Inr (\<lparr>m_maxB = 10, m_B = 10, m_N = 2, m_words = (\<lambda>i. None)(4 := Some [''aa'', ''spot''])\<rparr>,
        [''spot''])"
  by (simp add: lookupImpl_def rnl_stop sort_stop hash_def hash_opst sort_spot sort_aa
      record_visit_def del: removeNonLetters.simps)

lemma rnl_aa: "removeNonLetters ''aa'' = ''aa''" by code_simp
lemma rnl_spot: "removeNonLetters ''spot'' = ''spot''" by code_simp
lemma hash_aa: "sample_hash ''aa'' = 194" by code_simp

lemma run_aa_spot:
  "inserts sample_hash [''aa'', ''spot''] (DictionaryImpl 10) =
     Inr \<lparr>m_maxB = 10, m_B = 10, m_N = 2, m_words = (\<lambda>i. None)(4 := Some [''aa'', ''spot''])\<rparr>"
  by (simp add: DictionaryImpl_def insertImpl_def tryRehash_def hash_def push_back_def
      rnl_aa rnl_spot sort_aa sort_spot hash_aa hash_opst del: removeNonLetters.simps)

subsection \<open>A table after \<open>2\<^sup>3\<^sup>2 - 1\<close> inserts\<close>

text \<open>
  A table for 10 buckets has its 10 buckets from the start and never grows: after \<open>n\<close>
  inserts of the empty word only \<^verbatim>\<open>m_N\<close> has changed.
\<close>

lemma letterless_full_table:
  "insertImpl h [] \<lparr>m_maxB = 10, m_B = 10, m_N = n, m_words = \<lambda>i. None\<rparr> =
     Inr \<lparr>m_maxB = 10, m_B = 10, m_N = n + 1, m_words = \<lambda>i. None\<rparr>"
  by (simp add: insertImpl_letterless tryRehash_def)

lemma run_letterless_full_table:
  "inserts h (replicate n []) (DictionaryImpl 10) =
     Inr \<lparr>m_maxB = 10, m_B = 10, m_N = of_nat n, m_words = \<lambda>i. None\<rparr>"
proof (induction n)
  case 0
  show ?case by (simp add: DictionaryImpl_def)
next
  case (Suc n)
  have rep: "replicate (Suc n) [] = replicate n [] @ [[] :: string]"
    by (simp add: replicate_append_same)
  show ?case
    unfolding rep inserts_append Suc.IH
    by (simp add: letterless_full_table add.commute)
qed

lemma run_4294967295:
  "inserts h (replicate 4294967295 []) (DictionaryImpl 10) =
     Inr \<lparr>m_maxB = 10, m_B = 10, m_N = 4294967295, m_words = \<lambda>i. None\<rparr>"
  unfolding run_letterless_full_table by simp

lemma insert_4294967296:
  "insertImpl h [] \<lparr>m_maxB = 10, m_B = 10, m_N = 4294967295, m_words = \<lambda>i. None\<rparr> =
     Inr \<lparr>m_maxB = 10, m_B = 10, m_N = 0, m_words = \<lambda>i. None\<rparr>"
  unfolding letterless_full_table by simp

section \<open>The claims\<close>

text \<open>
  In the theorems below a reachable table is the result \<open>s\<close> of
  \<open>inserts h ws (DictionaryImpl mb)\<close>: the table made for \<open>mb\<close> buckets at most, after
  the calls \<^verbatim>\<open>insert(w)\<close> for the words \<open>w\<close> of \<open>ws\<close>.  The argument of the constructor is
  a positive \<^verbatim>\<open>int\<close>: \<open>1 \<le> mb\<close> and \<open>mb < 2\<^sup>3\<^sup>1\<close>.
\<close>

subsection \<open>C1: an inserted word is found by the lookup of an anagram\<close>

text \<open>
  Claim C1 as the code has it.  \<^verbatim>\<open>insert\<close> passes its argument through
  \<^verbatim>\<open>removeNonLetters\<close> and appends the result to the chain, so what a lookup hands to the
  callback is the stored form of the word: its letters, lowercased, in their order in the
  word.  For two words \<open>w1\<close> and \<open>w2\<close> with the same non-empty canonical key and every
  reachable table: after \<^verbatim>\<open>insert(w1)\<close> the call \<^verbatim>\<open>lookup(w2, callback)\<close> calls the
  callback with \<open>removeNonLetters w1\<close>, and the same with \<open>w1\<close> and \<open>w2\<close> exchanged.
\<close>

theorem C1_anagram_visited:
  assumes "1 \<le> mb" "mb < 2 ^ 31" "inserts h ws (DictionaryImpl mb) = Inr s"
    and "canonical_key w1 = canonical_key w2" "canonical_key w1 \<noteq> []"
  shows "(\<exists>s1 tr. insertImpl h w1 s = Inr s1 \<and> visited h s1 w2 = Inr tr \<and> removeNonLetters w1 \<in> set tr) \<and>
         (\<exists>s2 tr. insertImpl h w2 s = Inr s2 \<and> visited h s2 w1 = Inr tr \<and> removeNonLetters w2 \<in> set tr)"
proof -
  note inv = reachable_table_inv(1) [OF assms(1-3)]
  have *: "\<exists>s1 tr. insertImpl h a s = Inr s1 \<and> visited h s1 b = Inr tr \<and> removeNonLetters a \<in> set tr"
    if "canonical_key a = canonical_key b" "canonical_key a \<noteq> []" for a b
  proof -
    from insertImpl_inv [OF inv, of a] obtain s1 where
      "insertImpl h a s = Inr s1" "table_inv h (ws @ [a]) s1" by blast
    then show ?thesis using that by (simp add: visited_inv)
  qed
  show ?thesis using * [of w1 w2] * [of w2 w1] assms(4,5) by simp
qed

text \<open>
  The theorem at the fresh table for 10 buckets, \<open>w1 = Dog!\<close> and \<open>w2 = god\<close>: the lookup
  of \<open>god\<close> calls the callback with \<open>dog\<close>.
\<close>

theorem C1_anagram_visited_witness:
  "\<exists>s1 tr. insertImpl sample_hash ''Dog!'' (DictionaryImpl 10) = Inr s1 \<and>
     visited sample_hash s1 ''god'' = Inr tr \<and> ''dog'' \<in> set tr"
  using C1_anagram_visited [of 10 sample_hash "[]" "DictionaryImpl 10" "''Dog!''" "''god''"]
  by (simp add: key_Dog key_god rnl_Dog del: removeNonLetters.simps)

text \<open>
  C1 as it is written fails: \<open>Dog!\<close> and \<open>god\<close> have the same non-empty canonical key,
  and after \<^verbatim>\<open>insert("Dog!")\<close> into a fresh table for 10 buckets the call
  \<^verbatim>\<open>lookup("god", callback)\<close> calls the callback once, with \<open>dog\<close> and not with the word
  \<open>Dog!\<close> that was passed to \<^verbatim>\<open>insert\<close>.
\<close>

theorem C1_original_word_counterexample:
  "canonical_key ''Dog!'' = canonical_key ''god'' \<and> canonical_key ''Dog!'' \<noteq> [] \<and>
   lookup_after sample_hash 10 [''Dog!''] ''god'' = Inr [''dog''] \<and>
   ''Dog!'' \<notin> set [''dog'']"
  by (simp add: lookup_after_eq key_Dog key_god rnl_Dog del: removeNonLetters.simps)

subsection \<open>C2: growth keeps the table within its bound and loses nothing\<close>

text \<open>
  Claim C2.  On every reachable table the bucket count is at most \<^verbatim>\<open>m_maxB\<close>, which is
  the argument of the constructor, and every word of a chain is in the bucket its
  canonical key hashes to at the current bucket count.  Every inserted word with a letter
  is found, in its stored form, by the lookup of itself.  The growth step of the next
  \<^verbatim>\<open>insert\<close>, \<^verbatim>\<open>tryRehash\<close> on the table with \<^verbatim>\<open>m_N\<close> incremented, returns a table
  \<open>s1\<close> with at least as many buckets and at most \<^verbatim>\<open>m_maxB\<close>, in which again every
  word is in the bucket of its key (the rehash is full), every lookup calls the callback
  with the same words in the same order as before the step, and every word that was in
  a chain is visited by the lookup of itself.  Every further sequence \<open>vs\<close> of inserts
  returns, with a bucket count that is not lower and at most \<^verbatim>\<open>m_maxB\<close>.
\<close>

theorem C2_growth_lossless:
  assumes "1 \<le> mb" "mb < 2 ^ 31" "inserts h ws (DictionaryImpl mb) = Inr s"
  shows "m_B s \<le> m_maxB s \<and> unat (m_maxB s) = nat mb \<and>
     (\<forall>i v. v \<in> set (chain s i) \<longrightarrow> hash h s (canonical_key v) = Inr i) \<and>
     (\<forall>w. w \<in> set ws \<and> canonical_key w \<noteq> [] \<longrightarrow>
        (\<exists>tr. visited h s w = Inr tr \<and> removeNonLetters w \<in> set tr)) \<and>
     (\<exists>s1. tryRehash h (s\<lparr>m_N := m_N s + 1\<rparr>) = Inr s1 \<and>
        m_B s \<le> m_B s1 \<and> m_B s1 \<le> m_maxB s1 \<and> m_maxB s1 = m_maxB s \<and>
        (\<forall>i v. v \<in> set (chain s1 i) \<longrightarrow> hash h s1 (canonical_key v) = Inr i) \<and>
        (\<forall>q. visited h s1 q = visited h s q) \<and>
        (\<forall>i v. v \<in> set (chain s i) \<longrightarrow> (\<exists>tr. visited h s1 v = Inr tr \<and> v \<in> set tr))) \<and>
     (\<exists>s'. inserts h vs s = Inr s' \<and> m_B s \<le> m_B s' \<and> m_B s' \<le> m_maxB s' \<and>
        m_maxB s' = m_maxB s)"
proof -
  note inv = reachable_table_inv(1) [OF assms]
  have a: "m_B s \<le> m_maxB s" using inv by (simp add: table_inv_def)
  have b: "unat (m_maxB s) = nat mb"
    using reachable_table_inv(2) [OF assms] DictionaryImpl_fields(1) [OF assms(1,2)] by simp
  have c: "\<forall>i v. v \<in> set (chain s i) \<longrightarrow> hash h s (canonical_key v) = Inr i"
    using bucket_of_stored [OF inv] by blast
  have d: "\<forall>w. w \<in> set ws \<and> canonical_key w \<noteq> [] \<longrightarrow>
        (\<exists>tr. visited h s w = Inr tr \<and> removeNonLetters w \<in> set tr)"
    using inserted_visited [OF inv] by blast
  have inv0: "table_inv h ws (s\<lparr>m_N := m_N s + 1\<rparr>)" using inv by simp
  from tryRehash_inv [OF inv0] obtain s1 where
    s1: "tryRehash h (s\<lparr>m_N := m_N s + 1\<rparr>) = Inr s1" "table_inv h ws s1"
      "m_maxB s1 = m_maxB s" "m_B s \<le> m_B s1"
    by auto
  have e1: "m_B s1 \<le> m_maxB s1" using s1(2) by (simp add: table_inv_def)
  have e2: "\<forall>i v. v \<in> set (chain s1 i) \<longrightarrow> hash h s1 (canonical_key v) = Inr i"
    using bucket_of_stored [OF s1(2)] by blast
  have e3: "\<forall>q. visited h s1 q = visited h s q"
    by (simp add: visited_inv [OF s1(2)] visited_inv [OF inv])
  have e4: "\<forall>i v. v \<in> set (chain s i) \<longrightarrow> (\<exists>tr. visited h s1 v = Inr tr \<and> v \<in> set tr)"
    using stored_visited [OF inv] e3 by simp
  from inserts_inv [OF inv, of vs] obtain s' where
    s': "inserts h vs s = Inr s'" "table_inv h (ws @ vs) s'" "m_maxB s' = m_maxB s"
      "m_B s \<le> m_B s'"
    by blast
  have f: "m_B s' \<le> m_maxB s'" using s'(2) by (simp add: table_inv_def)
  from s1 e1 e2 e3 e4 have e: "\<exists>s1. tryRehash h (s\<lparr>m_N := m_N s + 1\<rparr>) = Inr s1 \<and>
        m_B s \<le> m_B s1 \<and> m_B s1 \<le> m_maxB s1 \<and> m_maxB s1 = m_maxB s \<and>
        (\<forall>i v. v \<in> set (chain s1 i) \<longrightarrow> hash h s1 (canonical_key v) = Inr i) \<and>
        (\<forall>q. visited h s1 q = visited h s q) \<and>
        (\<forall>i v. v \<in> set (chain s i) \<longrightarrow> (\<exists>tr. visited h s1 v = Inr tr \<and> v \<in> set tr))"
    by blast
  from s' f have g: "\<exists>s'. inserts h vs s = Inr s' \<and> m_B s \<le> m_B s' \<and> m_B s' \<le> m_maxB s' \<and>
        m_maxB s' = m_maxB s"
    by blast
  from a b c d e g show ?thesis by (intro conjI)
qed

text \<open>
  The theorem at a growth step that moves a word.  A table for 20 buckets has, after
  the inserts of \<open>listen\<close> and of six empty words, 10 buckets with \<open>listen\<close> in bucket 5.
  The growth step of the eighth insert doubles the buckets and puts \<open>listen\<close> in bucket
  15, where its key hashes to now, and the lookup of \<open>silent\<close> gives what it gave
  before.
\<close>

theorem C2_growth_lossless_witness:
  "tryRehash sample_hash
     \<lparr>m_maxB = 20, m_B = 10, m_N = 8, m_words = (\<lambda>i. None)(5 := Some [''listen''])\<rparr> =
     Inr \<lparr>m_maxB = 20, m_B = 20, m_N = 8, m_words = (\<lambda>i. None)(15 := Some [''listen''])\<rparr> \<and>
   hash sample_hash
     \<lparr>m_maxB = 20, m_B = 20, m_N = 8, m_words = (\<lambda>i. None)(15 := Some [''listen''])\<rparr>
     (canonical_key ''listen'') = Inr 15 \<and>
   visited sample_hash
     \<lparr>m_maxB = 20, m_B = 20, m_N = 8, m_words = (\<lambda>i. None)(15 := Some [''listen''])\<rparr> ''silent'' =
   visited sample_hash
     \<lparr>m_maxB = 20, m_B = 10, m_N = 7, m_words = (\<lambda>i. None)(5 := Some [''listen''])\<rparr> ''silent''"
proof -
  let ?S = "\<lparr>m_maxB = 20, m_B = 10, m_N = 7, m_words = (\<lambda>i. None)(5 := Some [''listen''])\<rparr>"
  let ?S1 = "\<lparr>m_maxB = 20, m_B = 20, m_N = 8, m_words = (\<lambda>i. None)(15 := Some [''listen''])\<rparr>"
  have "(1::int) \<le> 20" "(20::int) < 2 ^ 31" by simp_all
  from C2_growth_lossless [OF this run_listen, of "[]"] obtain s1 where
    s1: "tryRehash sample_hash (?S\<lparr>m_N := m_N ?S + 1\<rparr>) = Inr s1"
    and b: "\<forall>i v. v \<in> set (chain s1 i) \<longrightarrow> hash sample_hash s1 (canonical_key v) = Inr i"
    and v: "\<forall>q. visited sample_hash s1 q = visited sample_hash ?S q"
    by blast
  have g: "tryRehash sample_hash (?S\<lparr>m_N := m_N ?S + 1\<rparr>) = Inr ?S1"
    using grow_listen by simp
  with s1 have eq: "s1 = ?S1" by simp
  have "''listen'' \<in> set (chain ?S1 15)" by (simp add: chain_def slot_def)
  with b eq have "hash sample_hash ?S1 (canonical_key ''listen'') = Inr 15" by blast
  with grow_listen v eq show ?thesis by blast
qed

subsection \<open>C3: when the table grows\<close>

text \<open>
  Claim C3 as the code has it.  On every reachable table \<^verbatim>\<open>insert\<close> returns, and the
  bucket count after it is \<open>min (2 * m_B) m_maxB\<close> when \<open>m_B < m_maxB\<close> and the load
  factor test holds of the incremented \<^verbatim>\<open>m_N\<close> and the old \<^verbatim>\<open>m_B\<close>, and the old \<^verbatim>\<open>m_B\<close>
  otherwise; the table has grown exactly in the first case.  The load factor test is the
  source's \<^verbatim>\<open>m_N / static_cast<float>(m_B) > 0.7f\<close>, in single precision.  While the
  incremented \<^verbatim>\<open>m_N\<close> is below \<open>2\<^sup>2\<^sup>4\<close> and \<^verbatim>\<open>m_B\<close> is at most 5592405 the test is the
  exact comparison \<open>m_N / m_B > 7/10\<close>.
\<close>

theorem C3_growth_policy:
  assumes "1 \<le> mb" "mb < 2 ^ 31" "inserts h ws (DictionaryImpl mb) = Inr s"
  shows "\<exists>s'. insertImpl h w s = Inr s' \<and>
     unat (m_B s') =
       (if m_B s < m_maxB s \<and> load_factor_exceeded (m_N s + 1) (m_B s)
        then min (2 * unat (m_B s)) (unat (m_maxB s)) else unat (m_B s)) \<and>
     (m_B s < m_B s' \<longleftrightarrow> m_B s < m_maxB s \<and> load_factor_exceeded (m_N s + 1) (m_B s)) \<and>
     (unat (m_N s + 1) < 2 ^ 24 \<and> unat (m_B s) \<le> 5592405 \<longrightarrow>
        (load_factor_exceeded (m_N s + 1) (m_B s) \<longleftrightarrow> 7 * unat (m_B s) < 10 * unat (m_N s + 1)))"
proof -
  note inv = reachable_table_inv(1) [OF assms]
  from inv have nz: "m_B s \<noteq> 0" and mx: "unat (m_maxB s) < 2 ^ 31"
    by (simp_all add: table_inv_def)
  from insertImpl_m_B [OF inv, of w] obtain s' where
    s': "insertImpl h w s = Inr s'"
    "m_B s' = (if m_B s < m_maxB s \<and> load_factor_exceeded (m_N s + 1) (m_B s)
               then (if 2 * m_B s < m_maxB s then 2 * m_B s else m_maxB s) else m_B s)"
    by blast
  have a: "unat (m_B s') =
       (if m_B s < m_maxB s \<and> load_factor_exceeded (m_N s + 1) (m_B s)
        then min (2 * unat (m_B s)) (unat (m_maxB s)) else unat (m_B s))"
    using grow_bounds(5) [OF _ mx nz] s'(2) by auto
  have b: "m_B s < m_B s' \<longleftrightarrow> m_B s < m_maxB s \<and> load_factor_exceeded (m_N s + 1) (m_B s)"
    using grow_bounds(1) [OF _ mx nz] s'(2) by auto
  have c: "unat (m_N s + 1) < 2 ^ 24 \<and> unat (m_B s) \<le> 5592405 \<longrightarrow>
        (load_factor_exceeded (m_N s + 1) (m_B s) \<longleftrightarrow> 7 * unat (m_B s) < 10 * unat (m_N s + 1))"
    using load_factor_exceeded_small [OF _ nz, of "m_N s + 1"] by blast
  from s'(1) a b c show ?thesis by blast
qed

text \<open>
  The theorem at the table for 20 buckets after seven inserts without a letter: the
  eighth insert finds 8/10 above 0.7 and doubles the 10 buckets.
\<close>

theorem C3_growth_policy_witness:
  "\<exists>s'. insertImpl sample_hash ''abc'' \<lparr>m_maxB = 20, m_B = 10, m_N = 7, m_words = \<lambda>i. None\<rparr> = Inr s' \<and>
      unat (m_B s') = 20"
proof -
  have "(1::int) \<le> 20" "(20::int) < 2 ^ 31" by simp_all
  from C3_growth_policy [OF this run_seven_letterless [of sample_hash], of "''abc''"]
  have "\<exists>s'. insertImpl sample_hash ''abc'' \<lparr>m_maxB = 20, m_B = 10, m_N = 7, m_words = \<lambda>i. None\<rparr> = Inr s' \<and>
      unat (m_B s') = 20 \<and> 10 < m_B s'"
    by (simp add: lf_small_10)
  then show ?thesis by blast
qed

text \<open>
  C3 as it is written, with the exact quotient, fails on large tables.  A table for
  100000000 buckets has, after 29360128 inserts of the empty word, 41943040 buckets and
  nothing stored.  The next insert makes \<^verbatim>\<open>m_N\<close> 29360129, and 29360129 / 41943040 is
  above 7/10.  In single precision 29360129 rounds to 29360128, the quotient is the
  \<^verbatim>\<open>float\<close> nearest to 7/10, which is \<^verbatim>\<open>0.7f\<close> itself, and the table does not grow.
\<close>

theorem C3_exact_quotient_counterexample:
  "inserts sample_hash (replicate 29360128 []) (DictionaryImpl 100000000) =
     Inr \<lparr>m_maxB = 100000000, m_B = 41943040, m_N = 29360128, m_words = \<lambda>i. None\<rparr> \<and>
   insertImpl sample_hash []
     \<lparr>m_maxB = 100000000, m_B = 41943040, m_N = 29360128, m_words = \<lambda>i. None\<rparr> =
     Inr \<lparr>m_maxB = 100000000, m_B = 41943040, m_N = 29360129, m_words = \<lambda>i. None\<rparr> \<and>
   (41943040 :: 32 word) < 100000000 \<and>
   7 * unat (41943040 :: 32 word) < 10 * unat (29360128 + 1 :: 32 word)"
  by (simp add: insert_29360129 run_29360128)

subsection \<open>C4: only anagrams of the query are visited\<close>

text \<open>
  Claim C4.  On every reachable table \<^verbatim>\<open>lookup(q, callback)\<close> returns, and every word
  it calls the callback with is a word of some chain whose canonical key is the canonical
  key of \<open>q\<close>; a stored word with another key is not visited, whatever bucket it is in.
  The canonical keys of \<open>Dog!\<close> and \<open>g0d\<close> are \<open>dgo\<close> and \<open>dg\<close>, and after
  \<^verbatim>\<open>insert("Dog!")\<close> into a fresh table the lookup of \<open>g0d\<close> calls the callback for no
  word.
\<close>

theorem C4_only_anagrams_visited:
  assumes "1 \<le> mb" "mb < 2 ^ 31" "inserts h ws (DictionaryImpl mb) = Inr s"
  shows "(\<exists>tr. visited h s q = Inr tr \<and>
            (\<forall>v. v \<in> set tr \<longrightarrow> canonical_key v = canonical_key q \<and> (\<exists>i. v \<in> set (chain s i)))) \<and>
         canonical_key ''Dog!'' = ''dgo'' \<and> canonical_key ''g0d'' = ''dg'' \<and>
         lookup_after h mb [''Dog!''] ''g0d'' = Inr []"
proof -
  note inv = reachable_table_inv(1) [OF assms]
  let ?tr = "map removeNonLetters
       (filter (\<lambda>w. canonical_key w = canonical_key q \<and> canonical_key q \<noteq> []) ws)"
  have *: "canonical_key v = canonical_key q \<and> (\<exists>i. v \<in> set (chain s i))"
    if "v \<in> set ?tr" for v
  proof -
    from that obtain w where w: "w \<in> set ws" "canonical_key w = canonical_key q"
      "canonical_key q \<noteq> []" "v = removeNonLetters w"
      by auto
    from w have "canonical_key w \<noteq> []" by simp
    from stored_in_chain [OF inv w(1) this] w(4) have "\<exists>i. v \<in> set (chain s i)" by blast
    moreover have "canonical_key v = canonical_key q"
      using w by (simp only: canonical_key_stored)
    ultimately show ?thesis by simp
  qed
  have "visited h s q = Inr ?tr" by (rule visited_inv [OF inv])
  with * have "\<exists>tr. visited h s q = Inr tr \<and>
            (\<forall>v. v \<in> set tr \<longrightarrow> canonical_key v = canonical_key q \<and> (\<exists>i. v \<in> set (chain s i)))"
    by blast
  then show ?thesis
    using key_Dog key_g0d lookup_after_Dog_g0d [OF assms(1,2)] by blast
qed

text \<open>The theorem at the fresh table for 10 buckets.\<close>

theorem C4_only_anagrams_visited_witness:
  "lookup_after sample_hash 10 [''Dog!''] ''g0d'' = Inr []"
  using C4_only_anagrams_visited [of 10 sample_hash "[]" "DictionaryImpl 10"]
  by (simp del: removeNonLetters.simps)

subsection \<open>C5: words and queries without a letter\<close>

text \<open>
  Claim C5.  Let the canonical key of \<open>w\<close> be empty.  On every reachable table
  \<^verbatim>\<open>insert(w)\<close> returns, and it is the growth step alone: nothing is appended to a
  chain, \<open>w\<close> is in no chain afterwards, and every lookup gives what it gave before.  No
  reachable table, whatever was inserted, has \<open>w\<close> in a chain, and no lookup of any query
  calls the callback with \<open>w\<close>.  With \<open>w\<close> as the query, \<^verbatim>\<open>lookup\<close> returns on every
  table, reachable or not, with no call of the callback: the caller's state \<open>u\<close> is
  unchanged.
\<close>

theorem C5_letterless_word:
  assumes "1 \<le> mb" "mb < 2 ^ 31" "inserts h ws (DictionaryImpl mb) = Inr s"
    and "canonical_key w = []"
  shows "(\<exists>s'. insertImpl h w s = Inr s' \<and> tryRehash h (s\<lparr>m_N := m_N s + 1\<rparr>) = Inr s' \<and>
            (\<forall>q. visited h s' q = visited h s q) \<and> (\<forall>i. w \<notin> set (chain s' i))) \<and>
         (\<forall>i. w \<notin> set (chain s i)) \<and>
         (\<forall>q. \<exists>tr. visited h s q = Inr tr \<and> w \<notin> set tr) \<and>
         (\<forall>t callback u. lookupImpl h t w callback u = Inr (t, u))"
proof -
  note inv = reachable_table_inv(1) [OF assms(1-3)]
  from assms(4) have nl: "removeNonLetters w = []" by (simp add: canonical_key_Nil)
  have inv0: "table_inv h ws (s\<lparr>m_N := m_N s + 1\<rparr>)" using inv by simp
  from tryRehash_inv [OF inv0] obtain s1 where
    s1: "tryRehash h (s\<lparr>m_N := m_N s + 1\<rparr>) = Inr s1" "table_inv h ws s1"
    by auto
  have 1: "insertImpl h w s = Inr s1" using s1(1) nl by (simp add: insertImpl_letterless)
  have 2: "\<forall>q. visited h s1 q = visited h s q"
    by (simp add: visited_inv [OF s1(2)] visited_inv [OF inv])
  have 3: "\<forall>i. w \<notin> set (chain s1 i)" using not_stored [OF s1(2) assms(4)] by blast
  have 4: "\<forall>i. w \<notin> set (chain s i)" using not_stored [OF inv assms(4)] by blast
  have 5: "\<forall>q. \<exists>tr. visited h s q = Inr tr \<and> w \<notin> set tr"
    using visited_nonempty [OF inv assms(4)] by blast
  have 6: "\<forall>t callback u. lookupImpl h t w callback u = Inr (t, u)"
    by (simp add: lookupImpl_empty_key [OF assms(4)])
  from 1 s1(1) 2 3 have "\<exists>s'. insertImpl h w s = Inr s' \<and> tryRehash h (s\<lparr>m_N := m_N s + 1\<rparr>) = Inr s' \<and>
            (\<forall>q. visited h s' q = visited h s q) \<and> (\<forall>i. w \<notin> set (chain s' i))"
    by blast
  with 4 5 6 show ?thesis by (intro conjI)
qed

text \<open>The theorem at the table for 10 buckets after \<open>abc\<close> and \<open>123\<close>, with \<open>w = 123\<close>.\<close>

theorem C5_letterless_word_witness:
  "\<exists>s. inserts sample_hash [''abc'', ''123''] (DictionaryImpl 10) = Inr s \<and>
     (\<exists>s'. insertImpl sample_hash ''123'' s = Inr s' \<and> (\<forall>i. ''123'' \<notin> set (chain s' i))) \<and>
     visited sample_hash s ''123'' = Inr []"
proof -
  from reachable_inv [of 10 sample_hash "[''abc'', ''123'']"] obtain s where
    s: "inserts sample_hash [''abc'', ''123''] (DictionaryImpl 10) = Inr s"
    by auto
  have "(1::int) \<le> 10" "(10::int) < 2 ^ 31" by simp_all
  note c5 = C5_letterless_word [OF this s key_123]
  from c5 [THEN conjunct1] obtain s' where
    "insertImpl sample_hash ''123'' s = Inr s'" "\<forall>i. ''123'' \<notin> set (chain s' i)"
    by blast
  then have 1: "\<exists>s'. insertImpl sample_hash ''123'' s = Inr s' \<and> (\<forall>i. ''123'' \<notin> set (chain s' i))"
    by blast
  have "lookupImpl sample_hash s ''123'' (Some record_visit) [] = Inr (s, [])"
    by (rule c5 [THEN conjunct2, THEN conjunct2, THEN conjunct2, rule_format])
  then have 2: "visited sample_hash s ''123'' = Inr []"
    by (simp add: visited_def)
  from s 1 2 show ?thesis by blast
qed


subsection \<open>C6: every insert counts\<close>

text \<open>
  Claim C6 as the code has it.  \<^verbatim>\<open>m_N\<close> is an \<^verbatim>\<open>unsigned int\<close> of 32 bits.  On every
  reachable table it is the number of calls of \<^verbatim>\<open>insert\<close> so far modulo \<open>2\<^sup>3\<^sup>2\<close>.  Every
  call of \<^verbatim>\<open>insert\<close>, whatever its argument, returns with \<^verbatim>\<open>m_N\<close> incremented by one
  modulo \<open>2\<^sup>3\<^sup>2\<close>: it is one more than before unless it was 4294967295, and then it is
  0.  The growth step runs on the table with the incremented \<^verbatim>\<open>m_N\<close>, before the word
  is looked at, and decides the bucket count of the result; for a word without a letter
  the result is the result of the growth step.  Such an insert can make the table grow:
  in a table for 20 buckets after seven inserts of the empty word, with 10 buckets and
  nothing stored, the eighth insert of the empty word doubles the buckets and stores
  nothing.
\<close>

theorem C6_item_count:
  assumes "1 \<le> mb" "mb < 2 ^ 31" "inserts h ws (DictionaryImpl mb) = Inr s"
  shows "m_N s = of_nat (length ws) \<and> unat (m_N s) = length ws mod 2 ^ 32 \<and>
     (\<exists>s1 s'. tryRehash h (s\<lparr>m_N := m_N s + 1\<rparr>) = Inr s1 \<and> insertImpl h w s = Inr s' \<and>
        m_N s' = m_N s + 1 \<and> unat (m_N s') = (unat (m_N s) + 1) mod 2 ^ 32 \<and>
        (unat (m_N s) < 4294967295 \<longrightarrow> unat (m_N s') = unat (m_N s) + 1) \<and>
        (unat (m_N s) = 4294967295 \<longrightarrow> unat (m_N s') = 0) \<and>
        m_B s' = m_B s1 \<and> (canonical_key w = [] \<longrightarrow> s' = s1)) \<and>
     inserts h [[], [], [], [], [], [], []] (DictionaryImpl 20) =
       Inr \<lparr>m_maxB = 20, m_B = 10, m_N = 7, m_words = \<lambda>i. None\<rparr> \<and>
     insertImpl h [] \<lparr>m_maxB = 20, m_B = 10, m_N = 7, m_words = \<lambda>i. None\<rparr> =
       Inr \<lparr>m_maxB = 20, m_B = 20, m_N = 8, m_words = \<lambda>i. None\<rparr>"
proof -
  note inv = reachable_table_inv(1) [OF assms]
  note n = reachable_table_inv(3) [OF assms]
  have u: "unat (m_N s) = length ws mod 2 ^ 32"
    unfolding n by (simp add: unat_of_nat)
  from insertImpl_m_B [OF inv, of w] obtain s1 s' where
    1: "tryRehash h (s\<lparr>m_N := m_N s + 1\<rparr>) = Inr s1" "insertImpl h w s = Inr s'"
    "m_N s' = m_N s + 1" "m_B s' = m_B s1" "removeNonLetters w = [] \<longrightarrow> s' = s1"
    by blast
  have a: "unat (m_N s') = (unat (m_N s) + 1) mod 2 ^ 32"
    unfolding 1(3) by (simp add: unat_word_ariths)
  have b: "unat (m_N s) < 4294967295 \<longrightarrow> unat (m_N s') = unat (m_N s) + 1"
    unfolding a by simp
  have c: "unat (m_N s) = 4294967295 \<longrightarrow> unat (m_N s') = 0"
    unfolding a by simp
  from 1 a b c have "\<exists>s1 s'. tryRehash h (s\<lparr>m_N := m_N s + 1\<rparr>) = Inr s1 \<and> insertImpl h w s = Inr s' \<and>
        m_N s' = m_N s + 1 \<and> unat (m_N s') = (unat (m_N s) + 1) mod 2 ^ 32 \<and>
        (unat (m_N s) < 4294967295 \<longrightarrow> unat (m_N s') = unat (m_N s) + 1) \<and>
        (unat (m_N s) = 4294967295 \<longrightarrow> unat (m_N s') = 0) \<and>
        m_B s' = m_B s1 \<and> (canonical_key w = [] \<longrightarrow> s' = s1)"
    unfolding canonical_key_Nil by blast
  with n u run_seven_letterless [of h] eighth_letterless [of h]
  show ?thesis by (intro conjI)
qed

text \<open>
  The theorem at the table for 20 buckets after seven inserts of the empty word, and
  the insert of \<open>123\<close>: the count goes from 7 to 8.
\<close>

theorem C6_item_count_witness:
  "unat (m_N \<lparr>m_maxB = 20, m_B = 10, m_N = 7, m_words = \<lambda>i. None\<rparr>) = 7 \<and>
   (\<exists>s'. insertImpl sample_hash ''123'' \<lparr>m_maxB = 20, m_B = 10, m_N = 7, m_words = \<lambda>i. None\<rparr> = Inr s' \<and>
      unat (m_N s') = 8)"
proof -
  have "(1::int) \<le> 20" "(20::int) < 2 ^ 31" by simp_all
  from C6_item_count [OF this run_seven_letterless [of sample_hash], of "''123''"]
  obtain s' where "insertImpl sample_hash ''123'' \<lparr>m_maxB = 20, m_B = 10, m_N = 7, m_words = \<lambda>i. None\<rparr> = Inr s'"
    "unat (m_N \<lparr>m_maxB = 20, m_B = 10, m_N = 7, m_words = \<lambda>i. None\<rparr>) < 4294967295 \<longrightarrow>
      unat (m_N s') = unat (m_N \<lparr>m_maxB = 20, m_B = 10, m_N = 7, m_words = \<lambda>i. None\<rparr>) + 1"
    by blast
  then show ?thesis by auto
qed

text \<open>
  C6 as it is written fails where the counter wraps.  A table for 10 buckets has, after
  4294967295 inserts of the empty word, \<^verbatim>\<open>m_N\<close> = 4294967295.  The next insert leaves
  \<^verbatim>\<open>m_N\<close> = 0: the count has not gone up by one, it has gone down.
\<close>

theorem C6_wrap_counterexample:
  "inserts sample_hash (replicate 4294967295 []) (DictionaryImpl 10) =
     Inr \<lparr>m_maxB = 10, m_B = 10, m_N = 4294967295, m_words = \<lambda>i. None\<rparr> \<and>
   insertImpl sample_hash [] \<lparr>m_maxB = 10, m_B = 10, m_N = 4294967295, m_words = \<lambda>i. None\<rparr> =
     Inr \<lparr>m_maxB = 10, m_B = 10, m_N = 0, m_words = \<lambda>i. None\<rparr> \<and>
   unat (4294967295 :: 32 word) = 4294967295 \<and> unat (0 :: 32 word) = 0"
  by (simp add: run_4294967295 insert_4294967296)

subsection \<open>C7: anagrams are visited in insertion order\<close>

text \<open>
  Claim C7 as the code has it.  On every reachable table \<^verbatim>\<open>lookup(q, callback)\<close>
  calls the callback with the stored forms (\<open>removeNonLetters w\<close>) of exactly the
  inserted words \<open>w\<close> whose canonical key is that of \<open>q\<close>, in the order of their
  insertion, whether the table has grown in between or not.  So for mutual anagrams
  \<open>a\<close>, \<open>b\<close>, \<open>c\<close> inserted in this order into a fresh table, the lookup of each of them
  visits the stored forms of \<open>a\<close>, \<open>b\<close>, \<open>c\<close> in this order.  In a table for 10 buckets,
  after the inserts of \<open>listen\<close>, \<open>enlist\<close>, \<open>banana\<close>, \<open>inlets\<close> the lookup of \<open>silent\<close>
  visits \<open>listen\<close>, \<open>enlist\<close>, \<open>inlets\<close> in this order and nothing else.
\<close>

theorem C7_insertion_order:
  assumes "1 \<le> mb" "mb < 2 ^ 31" "inserts h ws (DictionaryImpl mb) = Inr s"
  shows "visited h s q = Inr (map removeNonLetters
           (filter (\<lambda>w. canonical_key w = canonical_key q \<and> canonical_key q \<noteq> []) ws)) \<and>
         (canonical_key a = canonical_key b \<and> canonical_key b = canonical_key c \<and>
          canonical_key a \<noteq> [] \<longrightarrow>
            lookup_after h mb [a, b, c] a = Inr [removeNonLetters a, removeNonLetters b, removeNonLetters c] \<and>
            lookup_after h mb [a, b, c] b = Inr [removeNonLetters a, removeNonLetters b, removeNonLetters c] \<and>
            lookup_after h mb [a, b, c] c = Inr [removeNonLetters a, removeNonLetters b, removeNonLetters c]) \<and>
         lookup_after h 10 [''listen'', ''enlist'', ''banana'', ''inlets''] ''silent'' =
           Inr [''listen'', ''enlist'', ''inlets'']"
proof -
  note inv = reachable_table_inv(1) [OF assms]
  have 1: "visited h s q = Inr (map removeNonLetters
           (filter (\<lambda>w. canonical_key w = canonical_key q \<and> canonical_key q \<noteq> []) ws))"
    by (rule visited_inv [OF inv])
  have 2: "lookup_after h mb [a, b, c] a = Inr [removeNonLetters a, removeNonLetters b, removeNonLetters c] \<and>
            lookup_after h mb [a, b, c] b = Inr [removeNonLetters a, removeNonLetters b, removeNonLetters c] \<and>
            lookup_after h mb [a, b, c] c = Inr [removeNonLetters a, removeNonLetters b, removeNonLetters c]"
    if "canonical_key a = canonical_key b \<and> canonical_key b = canonical_key c \<and> canonical_key a \<noteq> []"
  proof -
    from that have "canonical_key b = canonical_key a" "canonical_key c = canonical_key a"
      "canonical_key a \<noteq> []"
      by auto
    then show ?thesis
      by (simp add: lookup_after_eq [OF assms(1,2)] del: removeNonLetters.simps)
  qed
  have "(1::int) \<le> 10" "(10::int) < 2 ^ 31" by simp_all
  then have 3: "lookup_after h 10 [''listen'', ''enlist'', ''banana'', ''inlets''] ''silent'' =
           Inr [''listen'', ''enlist'', ''inlets'']"
    by (simp add: lookup_after_eq key_listen key_enlist key_banana key_inlets key_silent
        rnl_listen rnl_enlist rnl_inlets del: removeNonLetters.simps)
  from 1 2 3 show ?thesis by blast
qed

text \<open>
  The theorem at the fresh table for 10 buckets and the mutual anagrams \<open>Dog!\<close>,
  \<open>God?\<close>, \<open>dgo\<close>.
\<close>

theorem C7_insertion_order_witness:
  "lookup_after sample_hash 10 [''Dog!'', ''God?'', ''dgo''] ''God?'' = Inr [''dog'', ''god'', ''dgo'']"
proof -
  have s: "inserts sample_hash [] (DictionaryImpl 10) = Inr (DictionaryImpl 10)" by simp
  have k: "canonical_key ''dgo'' = ''dgo''" "removeNonLetters ''dgo'' = ''dgo''" by code_simp+
  have "(1::int) \<le> 10" "(10::int) < 2 ^ 31" by simp_all
  from C7_insertion_order [OF this s, of "[]" "''Dog!''" "''God?''" "''dgo''"] show ?thesis
    by (simp add: key_Dog key_God k rnl_Dog rnl_God del: removeNonLetters.simps)
qed

text \<open>
  C7 as it is written fails where a word is not its own stored form: \<open>Dog!\<close>, \<open>God?\<close>
  and \<open>dgo\<close> are mutual anagrams, and after their inserts into a fresh table for 10
  buckets the lookup of \<open>Dog!\<close> visits \<open>dog\<close>, \<open>god\<close>, \<open>dgo\<close>, which are not the three
  words that were inserted.
\<close>

theorem C7_original_words_counterexample:
  "canonical_key ''Dog!'' = canonical_key ''God?'' \<and> canonical_key ''God?'' = canonical_key ''dgo'' \<and>
   canonical_key ''Dog!'' \<noteq> [] \<and>
   lookup_after sample_hash 10 [''Dog!'', ''God?'', ''dgo''] ''Dog!'' = Inr [''dog'', ''god'', ''dgo''] \<and>
   [''dog'', ''god'', ''dgo''] \<noteq> [''Dog!'', ''God?'', ''dgo'']"
proof -
  have k: "canonical_key ''dgo'' = ''dgo''" "removeNonLetters ''dgo'' = ''dgo''" by code_simp+
  show ?thesis
    by (simp add: lookup_after_eq key_Dog key_God k rnl_Dog rnl_God del: removeNonLetters.simps)
qed


subsection \<open>C8: queries with one canonical key\<close>

text \<open>
  Claim C8.  For every table, reachable or not, every callback, null or not, and two
  queries with the same canonical key, \<^verbatim>\<open>lookup\<close> does the same with both: the same
  calls of the callback in the same order, or the same failure.
\<close>

theorem C8_same_key_same_visits:
  assumes "canonical_key q = canonical_key p"
  shows "lookupImpl h s q callback u = lookupImpl h s p callback u"
proof (cases "canonical_key q = []")
  case True
  with assms show ?thesis by (simp add: lookupImpl_empty_key)
next
  case False
  with assms have "canonical_key p \<noteq> []" by simp
  then have p: "removeNonLetters p \<noteq> []" unfolding canonical_key_Nil .
  from False have q: "removeNonLetters q \<noteq> []" unfolding canonical_key_Nil .
  from assms have "std_sort (removeNonLetters q) = std_sort (removeNonLetters p)"
    unfolding canonical_key_def .
  with p q show ?thesis
    by (simp add: lookupImpl_def Let_def split: option.splits)
qed

text \<open>
  The theorem at the queries \<open>stop\<close> and \<open>pots\<close>, on the table for 10 buckets after the
  inserts of \<open>aa\<close> and \<open>spot\<close>, which share bucket 4: both lookups visit \<open>spot\<close> and
  nothing else.
\<close>

theorem C8_same_key_same_visits_witness:
  "canonical_key ''stop'' = canonical_key ''pots'' \<and>
   inserts sample_hash [''aa'', ''spot''] (DictionaryImpl 10) =
     Inr \<lparr>m_maxB = 10, m_B = 10, m_N = 2, m_words = (\<lambda>i. None)(4 := Some [''aa'', ''spot''])\<rparr> \<and>
   lookupImpl sample_hash
     \<lparr>m_maxB = 10, m_B = 10, m_N = 2, m_words = (\<lambda>i. None)(4 := Some [''aa'', ''spot''])\<rparr>
     ''pots'' (Some record_visit) [] =
   Inr (\<lparr>m_maxB = 10, m_B = 10, m_N = 2, m_words = (\<lambda>i. None)(4 := Some [''aa'', ''spot''])\<rparr>,
        [''spot''])"
proof -
  let ?S = "\<lparr>m_maxB = 10, m_B = 10, m_N = 2, m_words = (\<lambda>i. None)(4 := Some [''aa'', ''spot''])\<rparr>"
  have k: "canonical_key ''stop'' = canonical_key ''pots''"
    unfolding key_stop key_pots ..
  have "lookupImpl sample_hash ?S ''pots'' (Some record_visit) [] =
      lookupImpl sample_hash ?S ''stop'' (Some record_visit) []"
    by (rule C8_same_key_same_visits [OF k, symmetric])
  also note lookup_stop
  finally show ?thesis using k run_aa_spot by (intro conjI)
qed

subsection \<open>C9: the null callback\<close>

text \<open>
  Claim C9.  For every table and every query, \<^verbatim>\<open>lookup\<close> with a null callback returns
  at once: the callback is not called, so the caller's state \<open>u\<close> is as it was, and the
  call does not fail.  The same holds through \<^verbatim>\<open>Dictionary::lookup\<close>.
\<close>

theorem C9_null_callback:
  "lookupImpl h s letters None u = Inr (s, u) \<and> Dictionary_lookup h s letters None u = Inr (s, u)"
  by (simp add: lookupImpl_def Dictionary_lookup_def)

subsection \<open>C10: a lookup leaves the table as it was\<close>

text \<open>
  Claim C10.  For every table, query and callback, a call of \<^verbatim>\<open>lookup\<close> returns with
  the table it was given: \<^verbatim>\<open>m_B\<close>, \<^verbatim>\<open>m_maxB\<close>, \<^verbatim>\<open>m_N\<close> and every chain are what they
  were.  The one call that does not return is the remainder by zero in a table of no
  buckets.  \<^verbatim>\<open>Dictionary::lookup\<close> is the same call.
\<close>

theorem C10_lookup_frame:
  "((\<exists>u'. lookupImpl h s letters callback u = Inr (s, u')) \<or>
    (m_B s = 0 \<and> lookupImpl h s letters callback u = Inl DivisionByZero)) \<and>
   Dictionary_lookup h s letters callback u = lookupImpl h s letters callback u"
  by (auto simp: lookupImpl_def Dictionary_lookup_def hash_def Let_def split: option.splits)

end
